theory Spec2Isabelle
  imports Complex_Main "HOL-Library.AList" "HOL-Library.Product_Lexorder"
begin

text \<open>
  A shallow embedding of the context-persistence engine: the entity de-duplication of
  \<open>entity_extractor.py\<close>, the knowledge graph of \<open>knowledge_graph.py\<close> and the hybrid
  search of \<open>hybrid_search.py\<close>.  Python floats are modelled as exact reals, datetimes as
  integers (a count of microseconds), dictionaries as association lists in insertion order,
  and a raised exception as the \<open>Inl\<close> branch of a sum.  The first part holds the model,
  the second part the properties proved about it.
\<close>

chapter \<open>The model\<close>

section \<open>Entity de-duplication (entity\_extractor.py)\<close>

text \<open>
  An extracted entity is a Python dictionary; the fields read by
  \<open>deduplicate_entities\<close> are \<open>name\<close>, \<open>entity_type\<close> and \<open>confidence\<close>.  The
  remaining fields travel with the entity unchanged.
\<close>

record extracted =
  x_id :: string
  x_name :: string
  x_entity_type :: string
  x_description :: string
  x_conversation_id :: string
  x_confidence :: real

text \<open>
  \<open>str.lower()\<close> on the ASCII range: the upper-case letters move to lower case,
  every other byte is left as it is.
\<close>

definition char_lower :: "char \<Rightarrow> char" where
  "char_lower c =
     (let n = (of_char c :: nat) in if 65 \<le> n \<and> n \<le> 90 then char_of (n + 32) else c)"

definition lower :: "string \<Rightarrow> string" where
  "lower s = map char_lower s"

text \<open>\<^verbatim>\<open>key = (entity["name"].lower(), entity["entity_type"])\<close>\<close>

definition entity_key :: "extracted \<Rightarrow> string \<times> string" where
  "entity_key e = (lower (x_name e), x_entity_type e)"

text \<open>
  The dictionary \<open>seen\<close> is an association list in insertion order, as a Python
  \<open>dict\<close> is: \<^const>\<open>AList.update\<close> replaces the value of a key that is present,
  keeping the key's position, and appends a new key at the end.
  One iteration of the loop body:
  \<^verbatim>\<open>if key not in seen or entity["confidence"] > seen[key]["confidence"]: seen[key] = entity\<close>
\<close>

definition seen_step :: "((string \<times> string) \<times> extracted) list \<Rightarrow> extracted
    \<Rightarrow> ((string \<times> string) \<times> extracted) list" where
  "seen_step seen entity =
     (let key = entity_key entity in
      case map_of seen key of
        None \<Rightarrow> AList.update key entity seen
      | Some kept \<Rightarrow>
          if x_confidence entity > x_confidence kept then AList.update key entity seen
          else seen)"

text \<open>\<^verbatim>\<open>return list(seen.values())\<close>\<close>

definition deduplicate_entities :: "extracted list \<Rightarrow> extracted list" where
  "deduplicate_entities entities = map snd (foldl seen_step [] entities)"

text \<open>
  The entity a key should keep, in the words of the specification: \<open>e\<close> occurs in the
  input, every entity of the same key before it has a strictly smaller confidence, and
  none after it has a greater one.  So \<open>e\<close> is the earliest entity among those with the
  greatest confidence for its key.
\<close>

definition earliest_max :: "extracted list \<Rightarrow> extracted \<Rightarrow> bool" where
  "earliest_max es e \<longleftrightarrow> (\<exists>pre post. es = pre @ e # post
      \<and> (\<forall>y\<in>set pre. entity_key y = entity_key e \<longrightarrow> x_confidence y < x_confidence e)
      \<and> (\<forall>y\<in>set post. entity_key y = entity_key e \<longrightarrow> x_confidence y \<le> x_confidence e))"

section \<open>The temporal store (models\_enhanced.py)\<close>

text \<open>
  The rows of the \<open>entities\<close> and \<open>relationships\<close> tables.  A nullable column is an
  \<open>option\<close>; the JSON columns \<open>meta_data\<close> and \<open>properties\<close> are carried as a list of
  string pairs.
\<close>

datatype error = StoreError | EmbeddingError | VectorClientError | TypeError | AttributeError
  | NameError

record Entity =
  e_id :: string
  e_name :: string
  e_entity_type :: string
  e_description :: "string option"
  e_event_time :: int
  e_ingestion_time :: int
  e_valid_from :: int
  e_valid_until :: "int option"
  e_conversation_id :: "string option"
  e_message_id :: "int option"
  e_confidence :: "real option"
  e_meta_data :: "(string \<times> string) list"

record Relationship =
  r_id :: string
  r_source_entity_id :: string
  r_target_entity_id :: string
  r_relationship_type :: string
  r_event_time :: int
  r_ingestion_time :: int
  r_valid_from :: int
  r_valid_until :: "int option"
  r_conversation_id :: "string option"
  r_message_id :: "int option"
  r_confidence :: "real option"
  r_properties :: "(string \<times> string) list"

text \<open>The rows of the \<open>messages\<close> table (class \<open>Message\<close> of server.py).\<close>

record Message =
  m_id :: int
  m_conversation_id :: "string option"
  m_timestamp :: "int option"
  m_role :: "string option"
  m_content :: "string option"
  m_tokens :: "int option"

text \<open>
  A database session.  \<open>session.execute\<close> either raises or returns rows; each table is
  therefore the error its query raises or the rows it holds, in the order the
  database returns them.  \<open>like\<close> is the database's \<open>LIKE\<close> operator, pattern first.
\<close>

record session =
  entity_table :: "error + Entity list"
  relationship_table :: "error + Relationship list"
  message_table :: "error + Message list"
  like :: "string \<Rightarrow> string \<Rightarrow> bool"

text \<open>
  The temporal predicate of both queries of \<open>build_graph\<close>:
  \<^verbatim>\<open>valid_from <= as_of, or_(valid_until.is_(None), valid_until > as_of)\<close>
\<close>

definition valid_at :: "int \<Rightarrow> int \<Rightarrow> int option \<Rightarrow> bool" where
  "valid_at as_of valid_from valid_until \<longleftrightarrow>
     valid_from \<le> as_of \<and> (case valid_until of None \<Rightarrow> True | Some u \<Rightarrow> u > as_of)"

definition select_entities_valid :: "session \<Rightarrow> int \<Rightarrow> error + Entity list" where
  "select_entities_valid s as_of =
     (case entity_table s of
        Inl err \<Rightarrow> Inl err
      | Inr rows \<Rightarrow> Inr (filter (\<lambda>e. valid_at as_of (e_valid_from e) (e_valid_until e)) rows))"

definition select_relationships_valid :: "session \<Rightarrow> int \<Rightarrow> error + Relationship list" where
  "select_relationships_valid s as_of =
     (case relationship_table s of
        Inl err \<Rightarrow> Inl err
      | Inr rows \<Rightarrow> Inr (filter (\<lambda>r. valid_at as_of (r_valid_from r) (r_valid_until r)) rows))"

section \<open>The directed multigraph (networkx.MultiDiGraph)\<close>

text \<open>
  The attributes \<open>build_graph\<close> stores with a node and with an edge.  A node that
  \<open>add_edge\<close> creates for an endpoint not yet in the graph has the empty attribute
  dictionary, here \<open>None\<close>.
\<close>

record node_data =
  n_name :: string
  n_entity_type :: string
  n_description :: "string option"
  n_confidence :: "real option"
  n_meta_data :: "(string \<times> string) list"
  n_conversation_id :: "string option"
  n_message_id :: "int option"

record edge_data =
  d_relationship_type :: string
  d_confidence :: "real option"
  d_properties :: "(string \<times> string) list"
  d_conversation_id :: "string option"
  d_message_id :: "int option"

text \<open>
  Nodes in insertion order with their attributes; edges in insertion order as
  (source, target, key, attributes).
\<close>

record MultiDiGraph =
  nodes :: "(string \<times> node_data option) list"
  edges :: "(string \<times> string \<times> string \<times> edge_data) list"

definition empty_graph :: MultiDiGraph where
  "empty_graph = \<lparr>nodes = [], edges = []\<rparr>"

definition has_node :: "MultiDiGraph \<Rightarrow> string \<Rightarrow> bool" where
  "has_node g n \<longleftrightarrow> n \<in> fst ` set (nodes g)"

definition number_of_nodes :: "MultiDiGraph \<Rightarrow> nat" where
  "number_of_nodes g = length (nodes g)"

text \<open>\<open>add_node(n, **attr)\<close>: a new node is appended, a present one has its attributes set.\<close>

definition add_node :: "MultiDiGraph \<Rightarrow> string \<Rightarrow> node_data \<Rightarrow> MultiDiGraph" where
  "add_node g n attr = g\<lparr>nodes := AList.update n (Some attr) (nodes g)\<rparr>"

text \<open>An endpoint of a new edge that is not a node becomes one, without attributes.\<close>

definition ensure_node :: "MultiDiGraph \<Rightarrow> string \<Rightarrow> MultiDiGraph" where
  "ensure_node g n = (if has_node g n then g else g\<lparr>nodes := nodes g @ [(n, None)]\<rparr>)"

text \<open>
  \<open>add_edge(u, v, key=k, **attr)\<close>: both endpoints are made nodes; the edge (u, v, k)
  is appended, or has its attributes set when it is present.
\<close>

fun set_edge :: "(string \<times> string \<times> string \<times> edge_data) list \<Rightarrow> string \<Rightarrow> string \<Rightarrow> string
    \<Rightarrow> edge_data \<Rightarrow> (string \<times> string \<times> string \<times> edge_data) list" where
  "set_edge [] u v k attr = [(u, v, k, attr)]"
| "set_edge ((u', v', k', a') # es) u v k attr =
     (if u' = u \<and> v' = v \<and> k' = k then (u, v, k, attr) # es
      else (u', v', k', a') # set_edge es u v k attr)"

definition add_edge :: "MultiDiGraph \<Rightarrow> string \<Rightarrow> string \<Rightarrow> string \<Rightarrow> edge_data \<Rightarrow> MultiDiGraph" where
  "add_edge g u v k attr =
     (let g1 = ensure_node g u; g2 = ensure_node g1 v
      in g2\<lparr>edges := set_edge (edges g2) u v k attr\<rparr>)"

section \<open>The knowledge graph (knowledge\_graph.py)\<close>

record KnowledgeGraph =
  graph :: MultiDiGraph
  last_refresh :: "int option"

text \<open>\<open>__init__\<close>\<close>

definition init_kg :: KnowledgeGraph where
  "init_kg = \<lparr>graph = empty_graph, last_refresh = None\<rparr>"

definition entity_node :: "MultiDiGraph \<Rightarrow> Entity \<Rightarrow> MultiDiGraph" where
  "entity_node g entity =
     add_node g (e_id entity)
       \<lparr>n_name = e_name entity, n_entity_type = e_entity_type entity,
        n_description = e_description entity, n_confidence = e_confidence entity,
        n_meta_data = e_meta_data entity, n_conversation_id = e_conversation_id entity,
        n_message_id = e_message_id entity\<rparr>"

definition relationship_edge :: "MultiDiGraph \<Rightarrow> Relationship \<Rightarrow> MultiDiGraph" where
  "relationship_edge g rel =
     add_edge g (r_source_entity_id rel) (r_target_entity_id rel) (r_id rel)
       \<lparr>d_relationship_type = r_relationship_type rel, d_confidence = r_confidence rel,
        d_properties = r_properties rel, d_conversation_id = r_conversation_id rel,
        d_message_id = r_message_id rel\<rparr>"

text \<open>
  \<open>build_graph(session, as_of)\<close>.  The two readings of the clock, \<open>datetime.utcnow()\<close>
  at entry (used when \<open>as_of\<close> is \<open>None\<close>) and at the end, are the parameters
  \<open>now0\<close> and \<open>now1\<close>.  The method mutates the object, also when a query raises, so
  the model returns the object as the call leaves it together with the outcome.
\<close>

definition effective_as_of :: "int option \<Rightarrow> int \<Rightarrow> int" where
  "effective_as_of as_of_arg now0 = (case as_of_arg of None \<Rightarrow> now0 | Some t \<Rightarrow> t)"

definition build_graph :: "KnowledgeGraph \<Rightarrow> session \<Rightarrow> int option \<Rightarrow> int \<Rightarrow> int
    \<Rightarrow> KnowledgeGraph \<times> (error + nat)" where
  "build_graph kg s as_of_arg now0 now1 =
     (let as_of = effective_as_of as_of_arg now0;
          kg1 = kg\<lparr>graph := empty_graph\<rparr>
      in case select_entities_valid s as_of of
           Inl err \<Rightarrow> (kg1, Inl err)
         | Inr entities \<Rightarrow>
             let kg2 = kg1\<lparr>graph := foldl entity_node (graph kg1) entities\<rparr>
             in case select_relationships_valid s as_of of
                  Inl err \<Rightarrow> (kg2, Inl err)
                | Inr relationships \<Rightarrow>
                    let kg3 = kg2\<lparr>graph := foldl relationship_edge (graph kg2) relationships\<rparr>;
                        kg4 = kg3\<lparr>last_refresh := Some now1\<rparr>
                    in (kg4, Inr (number_of_nodes (graph kg4))))"

section \<open>Traversal of the knowledge graph\<close>

subsection \<open>Python list slicing and adjacency in the multigraph\<close>

text \<open>\<open>xs[:n]\<close>: the first \<open>n\<close> elements, or all but the last \<open>-n\<close> when \<open>n\<close> is negative.\<close>

definition py_take :: "int \<Rightarrow> 'a list \<Rightarrow> 'a list" where
  "py_take n xs = (if 0 \<le> n then take (nat n) xs else take (length xs - nat (- n)) xs)"

text \<open>The elements of a list in the order of their first occurrence, as the keys of a dict.\<close>

definition uniq :: "'a list \<Rightarrow> 'a list" where
  "uniq xs = rev (remdups (rev xs))"

text \<open>
  \<open>G.edges(u)\<close>: the targets of the edges leaving \<open>u\<close>, one for every parallel edge.
  \<open>G.neighbors(u)\<close>, which for a directed graph is \<open>G.successors(u)\<close>: each target
  once.  \<open>G.predecessors(u)\<close>: each source of an edge entering \<open>u\<close> once.
  \<open>G.get_edge_data(u, v)\<close>: the attributes of the edges from \<open>u\<close> to \<open>v\<close>.
\<close>

definition out_targets :: "MultiDiGraph \<Rightarrow> string \<Rightarrow> string list" where
  "out_targets g u = map (\<lambda>(u', v, k, d). v) (filter (\<lambda>(u', v, k, d). u' = u) (edges g))"

definition successors :: "MultiDiGraph \<Rightarrow> string \<Rightarrow> string list" where
  "successors g u = uniq (out_targets g u)"

definition neighbors :: "MultiDiGraph \<Rightarrow> string \<Rightarrow> string list" where
  "neighbors g u = successors g u"

definition predecessors :: "MultiDiGraph \<Rightarrow> string \<Rightarrow> string list" where
  "predecessors g v =
     uniq (map (\<lambda>(u, v', k, d). u) (filter (\<lambda>(u, v', k, d). v' = v) (edges g)))"

definition get_edge_data :: "MultiDiGraph \<Rightarrow> string \<Rightarrow> string \<Rightarrow> edge_data list" where
  "get_edge_data g u v =
     map (\<lambda>(u', v', k, d). d) (filter (\<lambda>(u', v', k, d). u' = u \<and> v' = v) (edges g))"

text \<open>
  \<open>G.nodes[n]\<close>, the attribute dictionary of a node.  Every endpoint of an edge is a
  node of a networkx graph, so the traversals below only look up nodes.
\<close>

definition node_attr :: "MultiDiGraph \<Rightarrow> string \<Rightarrow> node_data option" where
  "node_attr g n = (case map_of (nodes g) n of Some a \<Rightarrow> a | None \<Rightarrow> None)"

text \<open>
  \<open>G.to_undirected()\<close>: the neighbours of \<open>u\<close> are the nodes joined to it by an edge of
  either direction.  (The order in which networkx lists them is not modelled; only the
  order of ties in a sorted result depends on it.)
\<close>

definition undirected_neighbors :: "MultiDiGraph \<Rightarrow> string \<Rightarrow> string list" where
  "undirected_neighbors g u = uniq (successors g u @ predecessors g u)"

subsection \<open>Breadth-first search, one level at a time\<close>

text \<open>
  The inner loops of networkx's breadth-first searches:
  \<^verbatim>\<open>for v in thislevel: for w in adj[v]: if w not in seen: seen.add(w); nextlevel.append(w)\<close>
\<close>

definition visit_new :: "string list \<times> string list \<Rightarrow> string \<Rightarrow> string list \<times> string list" where
  "visit_new st w =
     (case st of (nextlevel, seen) \<Rightarrow>
        if w \<in> set seen then (nextlevel, seen) else (nextlevel @ [w], seen @ [w]))"

definition expand_level :: "(string \<Rightarrow> string list) \<Rightarrow> string list \<Rightarrow> string list
    \<Rightarrow> string list \<times> string list" where
  "expand_level adj thislevel seen =
     foldl (\<lambda>st v. foldl visit_new st (adj v)) ([], seen) thislevel"

subsection \<open>\<open>find_paths\<close>\<close>

text \<open>
  \<open>nx.all_simple_paths(G, source, target, cutoff)\<close> on a multigraph: a depth-first
  enumeration of the paths from \<open>source\<close> to \<open>target\<close> that repeat no node and have at
  most \<open>cutoff\<close> edges, following every parallel edge (so a node sequence is listed once
  for each choice of parallel edges).  \<open>path\<close> is the non-empty path walked so far; the
  search does not continue through \<open>target\<close>.  When source and target coincide, the
  one-node path is the only simple path.
\<close>

fun simple_paths_from :: "MultiDiGraph \<Rightarrow> string \<Rightarrow> nat \<Rightarrow> string list \<Rightarrow> string list list" where
  "simple_paths_from g target 0 path = []"
| "simple_paths_from g target (Suc n) path =
     concat (map (\<lambda>child.
         if child \<in> set path then []
         else if child = target then [path @ [child]]
         else simple_paths_from g target n (path @ [child]))
       (out_targets g (last path)))"

definition all_simple_paths :: "MultiDiGraph \<Rightarrow> string \<Rightarrow> string \<Rightarrow> int \<Rightarrow> string list list" where
  "all_simple_paths g source target cutoff =
     (if cutoff < 0 then []
      else if source = target then [[source]]
      else simple_paths_from g target (nat cutoff) [source])"

text \<open>
  \<open>find_paths(source_id, target_id, max_depth, cutoff)\<close>; \<open>cutoff\<close> is \<open>None\<close> or a
  number, and \<^verbatim>\<open>if cutoff:\<close> holds for a number other than 0.
\<close>

definition find_paths :: "KnowledgeGraph \<Rightarrow> string \<Rightarrow> string \<Rightarrow> int \<Rightarrow> int option
    \<Rightarrow> string list list" where
  "find_paths kg source_id target_id max_depth cutoff =
     (if \<not> has_node (graph kg) source_id \<or> \<not> has_node (graph kg) target_id then []
      else
        let paths = all_simple_paths (graph kg) source_id target_id max_depth
        in case cutoff of
             None \<Rightarrow> paths
           | Some c \<Rightarrow> if c \<noteq> 0 then py_take c paths else paths)"

subsection \<open>\<open>find_shortest_path\<close>\<close>

text \<open>
  \<open>nx.shortest_path(G, source, target)\<close> without weights is a breadth-first search
  along the edges' direction that returns a path to \<open>target\<close> with the fewest edges, and
  raises \<open>NetworkXNoPath\<close> (here \<open>None\<close>) when there is none.  The search keeps, with
  every node of the current level, the path that reached it:
  \<^verbatim>\<open>for v in thislevel: for w in adj[v]: if w not in paths: paths[w] = paths[v] + [w]\<close>
  A level holds only nodes not seen before, so there are at most as many levels as
  nodes; the level counter \<open>n\<close> bounds the loop by that number.
\<close>

definition visit_path :: "string list \<Rightarrow> (string \<times> string list) list \<times> string list \<Rightarrow> string
    \<Rightarrow> (string \<times> string list) list \<times> string list" where
  "visit_path pv st w =
     (case st of (nextlevel, seen) \<Rightarrow>
        if w \<in> set seen then (nextlevel, seen)
        else (nextlevel @ [(w, pv @ [w])], seen @ [w]))"

definition expand_paths :: "(string \<Rightarrow> string list) \<Rightarrow> (string \<times> string list) list
    \<Rightarrow> string list \<Rightarrow> (string \<times> string list) list \<times> string list" where
  "expand_paths adj thislevel seen =
     foldl (\<lambda>st (v, pv). foldl (visit_path pv) st (adj v)) ([], seen) thislevel"

fun search_paths :: "(string \<Rightarrow> string list) \<Rightarrow> string \<Rightarrow> nat \<Rightarrow> (string \<times> string list) list
    \<Rightarrow> string list \<Rightarrow> string list option" where
  "search_paths adj target 0 thislevel seen = None"
| "search_paths adj target (Suc n) thislevel seen =
     (case map_of thislevel target of
        Some p \<Rightarrow> Some p
      | None \<Rightarrow>
          if thislevel = [] then None
          else case expand_paths adj thislevel seen of
                 (nextlevel, seen') \<Rightarrow> search_paths adj target n nextlevel seen')"

definition shortest_path :: "MultiDiGraph \<Rightarrow> string \<Rightarrow> string \<Rightarrow> string list option" where
  "shortest_path g source target =
     search_paths (successors g) target (Suc (number_of_nodes g)) [(source, [source])] [source]"

definition find_shortest_path :: "KnowledgeGraph \<Rightarrow> string \<Rightarrow> string \<Rightarrow> string list option" where
  "find_shortest_path kg source_id target_id =
     (if \<not> has_node (graph kg) source_id \<or> \<not> has_node (graph kg) target_id then None
      else shortest_path (graph kg) source_id target_id)"

subsection \<open>\<open>get_neighbors\<close>\<close>

text \<open>
  The body of the two inner loops.  \<^verbatim>\<open>if relationship_types:\<close> holds for a non-empty
  list; the filter then keeps a neighbour only if one of the edges from \<open>node\<close> to it has
  a listed type, and \<open>continue\<close> leaves the neighbour unvisited.
\<close>

definition type_allowed :: "MultiDiGraph \<Rightarrow> string list option \<Rightarrow> string \<Rightarrow> string \<Rightarrow> bool" where
  "type_allowed g relationship_types node neighbor =
     (case relationship_types of
        None \<Rightarrow> True
      | Some ts \<Rightarrow>
          if ts = [] then True
          else list_ex (\<lambda>d. d_relationship_type d \<in> set ts) (get_edge_data g node neighbor))"





subsection \<open>\<open>find_related_entities\<close>\<close>

text \<open>
  \<open>nx.single_source_shortest_path_length(G, source, cutoff)\<close>: the nodes within
  \<open>cutoff\<close> steps of \<open>source\<close> with their distances, in the order the breadth-first
  search finds them:
  \<^verbatim>\<open>while nextlevel and cutoff > level: level += 1; ...; yield (w, level)\<close>
\<close>

fun level_lengths :: "(string \<Rightarrow> string list) \<Rightarrow> nat \<Rightarrow> nat \<Rightarrow> string list \<Rightarrow> string list
    \<Rightarrow> (string \<times> nat) list" where
  "level_lengths adj 0 level thislevel seen = []"
| "level_lengths adj (Suc n) level thislevel seen =
     (if thislevel = [] then []
      else case expand_level adj thislevel seen of
             (nextlevel, seen') \<Rightarrow>
               map (\<lambda>w. (w, Suc level)) nextlevel
               @ level_lengths adj n (Suc level) nextlevel seen')"

definition single_source_shortest_path_length :: "(string \<Rightarrow> string list) \<Rightarrow> string \<Rightarrow> int
    \<Rightarrow> (string \<times> nat) list" where
  "single_source_shortest_path_length adj source cutoff =
     (source, 0) # level_lengths adj (nat cutoff) 0 [source] [source]"

text \<open>
  An entry of the result list.  \<open>node_data.get("name")\<close> and
  \<open>node_data.get("entity_type")\<close> are \<open>None\<close> for a node without attributes;
  \<open>node_data.get("confidence", 0.0)\<close> is 0.0 for such a node and otherwise the stored
  value, which may be \<open>None\<close>.
\<close>

record related =
  rel_id :: string
  rel_name :: "string option"
  rel_entity_type :: "string option"
  rel_distance :: nat
  rel_confidence :: "real option"

definition related_entry :: "MultiDiGraph \<Rightarrow> string \<Rightarrow> nat \<Rightarrow> related" where
  "related_entry g target_id distance =
     (case node_attr g target_id of
        None \<Rightarrow> \<lparr>rel_id = target_id, rel_name = None, rel_entity_type = None,
                 rel_distance = distance, rel_confidence = Some 0\<rparr>
      | Some a \<Rightarrow> \<lparr>rel_id = target_id, rel_name = Some (n_name a),
                 rel_entity_type = Some (n_entity_type a),
                 rel_distance = distance, rel_confidence = n_confidence a\<rparr>)"

text \<open>
  \<^verbatim>\<open>if entity_type and node_data.get("entity_type") != entity_type: continue\<close>; the
  filter is off for \<open>None\<close> and for the empty string.
\<close>

definition type_filtered_out :: "string option \<Rightarrow> related \<Rightarrow> bool" where
  "type_filtered_out entity_type r \<longleftrightarrow>
     (case entity_type of
        None \<Rightarrow> False
      | Some t \<Rightarrow> t \<noteq> [] \<and> rel_entity_type r \<noteq> Some t)"

text \<open>
  \<^verbatim>\<open>related.sort(key=lambda x: (x["distance"], -x["confidence"]))\<close>: a stable sort by
  the pair, compared lexicographically.  Negating \<open>None\<close> raises \<open>TypeError\<close>.
\<close>

definition confidence_value :: "related \<Rightarrow> real" where
  "confidence_value r = (case rel_confidence r of Some c \<Rightarrow> c | None \<Rightarrow> 0)"

definition sort_related :: "related list \<Rightarrow> error + related list" where
  "sort_related rs =
     (if list_ex (\<lambda>r. rel_confidence r = None) rs then Inl TypeError
      else Inr (sort_key (\<lambda>r. (rel_distance r, - confidence_value r)) rs))"

definition find_related_entities :: "KnowledgeGraph \<Rightarrow> string \<Rightarrow> string option \<Rightarrow> int
    \<Rightarrow> error + related list" where
  "find_related_entities kg entity_id entity_type max_distance =
     (if \<not> has_node (graph kg) entity_id then Inr []
      else
        let distances = single_source_shortest_path_length
                          (undirected_neighbors (graph kg)) entity_id max_distance;
            related = filter (\<lambda>r. \<not> type_filtered_out entity_type r)
                        (map (\<lambda>(target_id, distance). related_entry (graph kg) target_id distance)
                           (filter (\<lambda>(target_id, distance). target_id \<noteq> entity_id) distances))
        in sort_related related)"

section \<open>Hybrid search (hybrid\_search.py)\<close>

subsection \<open>Results, filters and the external services\<close>

datatype pyval = PNone | PStr string | PInt int | PFloat real

record SearchResult =
  item_id :: string
  item_type :: string
  content :: string
  score :: real
  source :: string
  metadata :: "(string \<times> pyval) list"

text \<open>
  A hit of the vector client, with the payload keys the search reads; \<open>None\<close> is a key
  that is absent.  The client's \<open>search\<close> on the collection \<open>messages\<close> takes the query
  vector, the limit and the score threshold and returns hits or raises; the embedding
  model's \<open>encode\<close> returns a vector or raises.
\<close>

record hit =
  h_id :: string
  h_score :: real
  h_content :: "string option"
  h_conversation_id :: "string option"
  h_role :: "string option"
  h_timestamp :: "string option"

record HybridSearch =
  qdrant :: "real list \<Rightarrow> int \<Rightarrow> real \<Rightarrow> error + hit list"
  embedding_model :: "string \<Rightarrow> error + real list"
  kg :: KnowledgeGraph

text \<open>
  \<open>filters\<close> is a dictionary of strings.  \<open>filters.get(k)\<close> is used as a condition, which
  holds for a value that is present and not empty.
\<close>

definition filter_value :: "(string \<times> string) list \<Rightarrow> string \<Rightarrow> string option" where
  "filter_value filters k =
     (case map_of filters k of None \<Rightarrow> None | Some v \<Rightarrow> if v = [] then None else Some v)"

definition opt_str :: "string option \<Rightarrow> pyval" where
  "opt_str x = (case x of None \<Rightarrow> PNone | Some s \<Rightarrow> PStr s)"

definition opt_int :: "int option \<Rightarrow> pyval" where
  "opt_int x = (case x of None \<Rightarrow> PNone | Some i \<Rightarrow> PInt i)"

definition opt_float :: "real option \<Rightarrow> pyval" where
  "opt_float x = (case x of None \<Rightarrow> PNone | Some i \<Rightarrow> PFloat i)"

text \<open>Sequencing of calls that may raise.\<close>

definition and_then :: "error + 'a \<Rightarrow> ('a \<Rightarrow> error + 'b) \<Rightarrow> error + 'b" where
  "and_then r f = (case r of Inl err \<Rightarrow> Inl err | Inr x \<Rightarrow> f x)"

subsection \<open>The semantic strategy\<close>

definition hit_result :: "hit \<Rightarrow> SearchResult" where
  "hit_result h =
     \<lparr>item_id = h_id h, item_type = ''message'',
      content = (case h_content h of None \<Rightarrow> [] | Some c \<Rightarrow> c),
      score = h_score h, source = ''semantic'',
      metadata = [(''conversation_id'', opt_str (h_conversation_id h)),
                  (''role'', opt_str (h_role h)),
                  (''timestamp'', opt_str (h_timestamp h))]\<rparr>"

text \<open>
  \<open>_semantic_search\<close>.  The call of the embedding model stands before the \<open>try\<close>
  block, so its exception leaves the method; an exception of the vector client is caught
  and gives the empty list.
\<close>

definition semantic_search :: "HybridSearch \<Rightarrow> string \<Rightarrow> (string \<times> string) list \<Rightarrow> int \<Rightarrow> real
    \<Rightarrow> error + SearchResult list" where
  "semantic_search hs query filters limit min_score =
     (case embedding_model hs query of
        Inl err \<Rightarrow> Inl err
      | Inr query_embedding \<Rightarrow>
          (case qdrant hs query_embedding (limit * 2) min_score of
             Inl err \<Rightarrow> Inr []
           | Inr search_results \<Rightarrow>
               let kept = filter (\<lambda>h. case filter_value filters ''conversation_id'' of
                                        None \<Rightarrow> True
                                      | Some c \<Rightarrow> h_conversation_id h = Some c) search_results
               in Inr (py_take limit (map hit_result kept))))"

subsection \<open>The keyword strategy\<close>

text \<open>
  \<open>sub in s\<close>, and \<open>s.count(sub)\<close>: the number of occurrences of \<open>sub\<close> found from left
  to right without overlap (\<open>skip\<close> characters of a match are still to pass); the empty
  string occurs \<open>len(s) + 1\<close> times.
\<close>

fun is_substring :: "string \<Rightarrow> string \<Rightarrow> bool" where
  "is_substring sub [] = (sub = [])"
| "is_substring sub (c # cs) = (take (length sub) (c # cs) = sub \<or> is_substring sub cs)"

fun count_from :: "string \<Rightarrow> nat \<Rightarrow> string \<Rightarrow> nat" where
  "count_from sub skip [] = 0"
| "count_from sub skip (c # cs) =
     (if 0 < skip then count_from sub (skip - 1) cs
      else if take (length sub) (c # cs) = sub then Suc (count_from sub (length sub - 1) cs)
      else count_from sub 0 cs)"

definition str_count :: "string \<Rightarrow> string \<Rightarrow> nat" where
  "str_count s sub = (if sub = [] then length s + 1 else count_from sub 0 s)"

text \<open>\<open>str(n)\<close> for an integer.\<close>

fun digits :: "nat \<Rightarrow> nat \<Rightarrow> string" where
  "digits 0 n = []"
| "digits (Suc fuel) n =
     (if n < 10 then [char_of (48 + n)] else digits fuel (n div 10) @ [char_of (48 + n mod 10)])"

definition str_int :: "int \<Rightarrow> string" where
  "str_int i = (if i < 0 then CHR ''-'' # digits (Suc (nat (- i))) (nat (- i))
                else digits (Suc (nat i)) (nat i))"

text \<open>
  \<open>query.limit(n)\<close>; the database returns all rows for a negative limit.
\<close>

definition sql_limit :: "int \<Rightarrow> 'a list \<Rightarrow> 'a list" where
  "sql_limit n rows = (if n < 0 then rows else take (nat n) rows)"

definition like_opt :: "session \<Rightarrow> string \<Rightarrow> string option \<Rightarrow> bool" where
  "like_opt s pattern v = (case v of None \<Rightarrow> False | Some x \<Rightarrow> like s pattern x)"

text \<open>
  The message model.  hybrid\_search.py imports it by
  \<^verbatim>\<open>if TYPE_CHECKING: from .server import Message\<close>
  and \<open>typing.TYPE_CHECKING\<close> is \<open>False\<close> when the program runs: the import is not
  executed, the global name \<open>Message\<close> is unbound in the module, and evaluating it raises
  \<open>NameError\<close>.
\<close>

definition TYPE_CHECKING :: bool where
  "TYPE_CHECKING = False"

definition Message_model :: "session \<Rightarrow> error + (error + Message list)" where
  "Message_model s = (if TYPE_CHECKING then Inr (message_table s) else Inl NameError)"

text \<open>
  The three text queries.  The message query starts with \<open>sa.select(Message)\<close>, which
  evaluates the name \<open>Message\<close> before anything is sent to the session.
\<close>

definition select_messages_like :: "session \<Rightarrow> string \<Rightarrow> (string \<times> string) list \<Rightarrow> int
    \<Rightarrow> error + Message list" where
  "select_messages_like s query filters limit =
     (case Message_model s of
        Inl err \<Rightarrow> Inl err
      | Inr table \<Rightarrow>
          (case table of
             Inl err \<Rightarrow> Inl err
           | Inr rows \<Rightarrow>
               Inr (sql_limit limit
                 (filter (\<lambda>m. like_opt s (''%'' @ query @ ''%'') (m_content m)
                            \<and> (case filter_value filters ''conversation_id'' of
                                 None \<Rightarrow> True
                               | Some c \<Rightarrow> m_conversation_id m = Some c)) rows))))"

definition select_entities_like :: "session \<Rightarrow> string \<Rightarrow> string option \<Rightarrow> int
    \<Rightarrow> error + Entity list" where
  "select_entities_like s query entity_type limit =
     (case entity_table s of
        Inl err \<Rightarrow> Inl err
      | Inr rows \<Rightarrow>
          Inr (sql_limit limit
            (filter (\<lambda>e. (like s (''%'' @ query @ ''%'') (e_name e)
                          \<or> like_opt s (''%'' @ query @ ''%'') (e_description e))
                       \<and> (case entity_type of
                            None \<Rightarrow> True
                          | Some t \<Rightarrow> e_entity_type e = t)) rows)))"

definition message_result :: "string \<Rightarrow> Message \<Rightarrow> error + SearchResult" where
  "message_result query msg =
     (case m_content msg of
        None \<Rightarrow> Inl AttributeError
      | Some c \<Rightarrow>
          let content_lower = lower c;
              query_lower = lower query;
              score0 = real (str_count content_lower query_lower)
                         / real (max (length content_lower) 1)
          in Inr \<lparr>item_id = str_int (m_id msg), item_type = ''message'', content = c,
                  score = min (score0 * 10) 1, source = ''keyword'',
                  metadata = [(''conversation_id'', opt_str (m_conversation_id msg)),
                              (''role'', opt_str (m_role msg)),
                              (''timestamp'', opt_int (m_timestamp msg)),
                              (''tokens'', opt_int (m_tokens msg))]\<rparr>)"

fun message_results :: "string \<Rightarrow> Message list \<Rightarrow> error + SearchResult list" where
  "message_results query [] = Inr []"
| "message_results query (msg # msgs) =
     and_then (message_result query msg) (\<lambda>r.
       and_then (message_results query msgs) (\<lambda>rs. Inr (r # rs)))"

definition entity_result :: "string \<Rightarrow> Entity \<Rightarrow> SearchResult" where
  "entity_result query entity =
     \<lparr>item_id = e_id entity, item_type = ''entity'',
      content = e_name entity @ '': ''
                  @ (case e_description entity of None \<Rightarrow> [] | Some d \<Rightarrow> d),
      score = (if is_substring (lower query) (lower (e_name entity)) then 9 / 10 else 6 / 10),
      source = ''keyword'',
      metadata = [(''entity_type'', PStr (e_entity_type entity)),
                  (''confidence'', opt_float (e_confidence entity)),
                  (''conversation_id'', opt_str (e_conversation_id entity))]\<rparr>"

definition keyword_search :: "session \<Rightarrow> string \<Rightarrow> (string \<times> string) list \<Rightarrow> int
    \<Rightarrow> error + SearchResult list" where
  "keyword_search s query filters limit =
     and_then (select_messages_like s query filters limit) (\<lambda>messages.
     and_then (message_results query messages) (\<lambda>results.
     and_then (select_entities_like s query (filter_value filters ''entity_type'') limit)
       (\<lambda>entities. Inr (results @ map (entity_result query) entities))))"

subsection \<open>The graph strategy\<close>

text \<open>\<open>f"{name} ({entity_type})"\<close>, where \<open>None\<close> prints as \<open>None\<close>.\<close>

definition str_opt :: "string option \<Rightarrow> string" where
  "str_opt x = (case x of None \<Rightarrow> ''None'' | Some s \<Rightarrow> s)"

definition related_result :: "Entity \<Rightarrow> related \<Rightarrow> SearchResult" where
  "related_result seed_entity rel_entity =
     \<lparr>item_id = rel_id rel_entity, item_type = ''entity'',
      content = str_opt (rel_name rel_entity) @ '' ('' @ str_opt (rel_entity_type rel_entity) @ '')'',
      score = 1 / (1 + real (rel_distance rel_entity) * (3 / 10)),
      source = ''graph'',
      metadata = [(''entity_type'', opt_str (rel_entity_type rel_entity)),
                  (''distance_from_query'', PInt (int (rel_distance rel_entity))),
                  (''seed_entity'', PStr (e_name seed_entity))]\<rparr>"

fun seed_results :: "HybridSearch \<Rightarrow> (string \<times> string) list \<Rightarrow> int \<Rightarrow> Entity list
    \<Rightarrow> error + SearchResult list" where
  "seed_results hs filters limit [] = Inr []"
| "seed_results hs filters limit (seed_entity # seeds) =
     (if \<not> has_node (graph (kg hs)) (e_id seed_entity) then seed_results hs filters limit seeds
      else
        and_then (find_related_entities (kg hs) (e_id seed_entity)
                    (map_of filters ''entity_type'') 2) (\<lambda>related.
        and_then (seed_results hs filters limit seeds) (\<lambda>rest.
          Inr (map (related_result seed_entity) (py_take limit related) @ rest))))"

definition graph_search :: "HybridSearch \<Rightarrow> session \<Rightarrow> string \<Rightarrow> (string \<times> string) list \<Rightarrow> int
    \<Rightarrow> error + SearchResult list" where
  "graph_search hs s query filters limit =
     and_then (select_entities_like s query None 5) (\<lambda>seed_entities.
       seed_results hs filters limit seed_entities)"

subsection \<open>Reciprocal rank fusion\<close>

text \<open>\<open>key = f"{result.item_type}:{result.item_id}"\<close>\<close>

definition result_key :: "SearchResult \<Rightarrow> string" where
  "result_key r = item_type r @ '':'' @ item_id r"

text \<open>
  Grouping by source:
  \<^verbatim>\<open>if result.source not in by_source: by_source[result.source] = []\<close>
  \<^verbatim>\<open>by_source[result.source].append(result)\<close>
\<close>

definition group_step :: "(string \<times> SearchResult list) list \<Rightarrow> SearchResult
    \<Rightarrow> (string \<times> SearchResult list) list" where
  "group_step by_source r =
     (case map_of by_source (source r) of
        None \<Rightarrow> AList.update (source r) [r] by_source
      | Some rs \<Rightarrow> AList.update (source r) (rs @ [r]) by_source)"

text \<open>
  \<open>xs.sort(key=lambda x: x.score, reverse=True)\<close>: a stable sort, also when reversed.
\<close>

definition sort_by_score :: "SearchResult list \<Rightarrow> SearchResult list" where
  "sort_by_score rs = sort_key (\<lambda>x. - score x) rs"

text \<open>
  One step of the accumulation, for the result at 1-based \<open>rank\<close> in its source:
  \<^verbatim>\<open>rrf_scores[key] = rrf_scores.get(key, 0) + 1.0 / (k + rank); item_map[key] = result\<close>
  with \<open>k = 60\<close>.
\<close>

definition rrf_step :: "(string \<times> real) list \<times> (string \<times> SearchResult) list
    \<Rightarrow> nat \<times> SearchResult \<Rightarrow> (string \<times> real) list \<times> (string \<times> SearchResult) list" where
  "rrf_step st p =
     (case st of (rrf_scores, item_map) \<Rightarrow>
      case p of (rank, r) \<Rightarrow>
        let key = result_key r
        in (AList.update key
              ((case map_of rrf_scores key of None \<Rightarrow> 0 | Some v \<Rightarrow> v) + 1 / (60 + real rank))
              rrf_scores,
            AList.update key r item_map))"

definition rrf_accumulate :: "(string \<times> SearchResult list) list
    \<Rightarrow> (string \<times> real) list \<times> (string \<times> SearchResult) list" where
  "rrf_accumulate by_source =
     foldl (\<lambda>st (src, source_results). foldl rrf_step st (enumerate 1 source_results))
       ([], []) by_source"

text \<open>
  \<open>_fuse_results\<close>.  The keys are taken by descending fused score (a stable sort), and
  each key's result object gets the fused score in place of its own; \<open>fused\<close> is the
  list before \<open>fused[:limit]\<close>.  Every key of \<open>rrf_scores\<close> is a key of \<open>item_map\<close>.
\<close>

definition by_source_sorted :: "SearchResult list \<Rightarrow> (string \<times> SearchResult list) list" where
  "by_source_sorted results =
     map (\<lambda>(src, rs). (src, sort_by_score rs)) (foldl group_step [] results)"

definition fused :: "SearchResult list \<Rightarrow> SearchResult list" where
  "fused results =
     (let acc = rrf_accumulate (by_source_sorted results)
      in concat (map (\<lambda>(key, rrf_score).
                   case map_of (snd acc) key of
                     None \<Rightarrow> []
                   | Some r \<Rightarrow> [r\<lparr>score := rrf_score\<rparr>])
                 (sort_key (\<lambda>(key, rrf_score). - rrf_score) (fst acc))))"

definition fuse_results :: "SearchResult list \<Rightarrow> int \<Rightarrow> SearchResult list" where
  "fuse_results results limit = py_take limit (fused results)"

subsection \<open>\<open>search\<close>\<close>

text \<open>
  The strategies run in the order semantic, keyword, graph, each only in its modes; an
  exception of one ends the call.  \<open>candidates\<close> is the list \<open>results\<close> before ranking.
  Since the keyword strategy raises \<open>NameError\<close>, so does \<open>search\<close> in keyword mode, and
  in hybrid mode whenever the semantic strategy returns.
\<close>

definition candidates :: "HybridSearch \<Rightarrow> session \<Rightarrow> string \<Rightarrow> string \<Rightarrow> (string \<times> string) list
    \<Rightarrow> int \<Rightarrow> real \<Rightarrow> error + SearchResult list" where
  "candidates hs s query mode filters limit min_score =
     and_then (if mode = ''hybrid'' \<or> mode = ''semantic''
               then semantic_search hs query filters limit min_score else Inr [])
       (\<lambda>semantic_results.
     and_then (if mode = ''hybrid'' \<or> mode = ''keyword''
               then keyword_search s query filters limit else Inr [])
       (\<lambda>keyword_results.
     and_then (if mode = ''hybrid'' \<or> mode = ''graph''
               then graph_search hs s query filters limit else Inr [])
       (\<lambda>graph_results. Inr (semantic_results @ keyword_results @ graph_results))))"

definition search :: "HybridSearch \<Rightarrow> session \<Rightarrow> string \<Rightarrow> string \<Rightarrow> (string \<times> string) list
    \<Rightarrow> int \<Rightarrow> real \<Rightarrow> error + SearchResult list" where
  "search hs s query mode filters limit min_score =
     and_then (candidates hs s query mode filters limit min_score) (\<lambda>results.
       let ranked = (if mode = ''hybrid'' then fuse_results results limit
                     else py_take limit (sort_by_score results))
       in Inr (filter (\<lambda>r. score r \<ge> min_score) ranked))"

subsection \<open>Reciprocal rank fusion as the specification words it\<close>

text \<open>
  The candidates of one source, ranked by their own score descending; the contribution
  \<open>1 / (60 + r)\<close> of every candidate at 1-based rank \<open>r\<close> that carries the key
  \<open>(item_type, item_id)\<close>; and the fused score of the key, the sum of the contributions
  over the sources.
\<close>

definition pair_key :: "SearchResult \<Rightarrow> string \<times> string" where
  "pair_key r = (item_type r, item_id r)"

definition source_ranking :: "SearchResult list \<Rightarrow> string \<Rightarrow> SearchResult list" where
  "source_ranking cs src = sort_key (\<lambda>c. - score c) (filter (\<lambda>c. source c = src) cs)"

definition source_contribution :: "SearchResult list \<Rightarrow> string \<Rightarrow> string \<times> string \<Rightarrow> real" where
  "source_contribution cs src key =
     sum_list (map (\<lambda>(rank, c). if pair_key c = key then 1 / (60 + real rank) else 0)
                (enumerate 1 (source_ranking cs src)))"

definition rrf_score :: "SearchResult list \<Rightarrow> string \<times> string \<Rightarrow> real" where
  "rrf_score cs key = sum_list (map (\<lambda>src. source_contribution cs src key) (remdups (map source cs)))"

text \<open>The number of candidates that carry the key of \<open>r\<close>.\<close>

definition occurrences :: "SearchResult list \<Rightarrow> SearchResult \<Rightarrow> nat" where
  "occurrences cs r = length (filter (\<lambda>c. result_key c = result_key r) cs)"

text \<open>
  Candidate lists in which no source carries a key twice, the sources being the three
  strategies.
\<close>

definition once_per_source :: "SearchResult list \<Rightarrow> bool" where
  "once_per_source cs \<longleftrightarrow>
     distinct (map (\<lambda>c. (source c, result_key c)) cs)
     \<and> (\<forall>c\<in>set cs. source c \<in> set [''semantic'', ''keyword'', ''graph''])"

text \<open>
  The sum, over a list of ranked results, of the contributions to the string key \<open>k\<close>.
\<close>

definition contributions :: "string \<Rightarrow> (nat \<times> SearchResult) list \<Rightarrow> real" where
  "contributions k ps =
     sum_list (map (\<lambda>(rank, c). if result_key c = k then 1 / (60 + real rank) else 0) ps)"

text \<open>
  The ranked results in the order the accumulation visits them, and the invariant of the
  grouping loop: after the candidates \<open>cs\<close>, the dictionary holds every source of \<open>cs\<close> once,
  with the candidates of that source in their order.
\<close>

definition ranked_entries :: "(string \<times> SearchResult list) list \<Rightarrow> (nat \<times> SearchResult) list" where
  "ranked_entries by_source = concat (map (\<lambda>(src, rs). enumerate 1 rs) by_source)"

definition group_inv :: "SearchResult list \<Rightarrow> (string \<times> SearchResult list) list \<Rightarrow> bool" where
  "group_inv cs G \<longleftrightarrow> distinct (map fst G) \<and> fst ` set G = source ` set cs
     \<and> (\<forall>src rs. map_of G src = Some rs \<longrightarrow> rs = filter (\<lambda>c. source c = src) cs)"

section \<open>Distances in a graph\<close>

text \<open>
  \<open>walk adj s k v\<close>: \<open>v\<close> is reached from \<open>s\<close> in \<open>k\<close> steps, each from a node \<open>u\<close> to a
  node of \<open>adj u\<close>.  \<open>distance_is adj s k v\<close>: \<open>k\<close> is the length of a shortest walk
  from \<open>s\<close> to \<open>v\<close>.  \<open>reach_within adj s k\<close>: the nodes at distance at most \<open>k\<close>.
\<close>

inductive walk :: "(string \<Rightarrow> string list) \<Rightarrow> string \<Rightarrow> nat \<Rightarrow> string \<Rightarrow> bool"
  for adj :: "string \<Rightarrow> string list" and s :: string where
  walk_0: "walk adj s 0 s"
| walk_Suc: "walk adj s k u \<Longrightarrow> v \<in> set (adj u) \<Longrightarrow> walk adj s (Suc k) v"

definition distance_is :: "(string \<Rightarrow> string list) \<Rightarrow> string \<Rightarrow> nat \<Rightarrow> string \<Rightarrow> bool" where
  "distance_is adj s k v \<longleftrightarrow> walk adj s k v \<and> (\<forall>j<k. \<not> walk adj s j v)"

definition reach_within :: "(string \<Rightarrow> string list) \<Rightarrow> string \<Rightarrow> nat \<Rightarrow> string set" where
  "reach_within adj s k = {v. \<exists>j\<le>k. walk adj s j v}"

text \<open>
  The state of a breadth-first search from \<open>s\<close> after \<open>k\<close> levels: the current level
  holds the nodes at distance \<open>k\<close>, and the nodes seen are those at distance at most \<open>k\<close>,
  each once.
\<close>

definition bfs_inv :: "(string \<Rightarrow> string list) \<Rightarrow> string \<Rightarrow> nat \<Rightarrow> string list \<Rightarrow> string list
    \<Rightarrow> bool" where
  "bfs_inv adj s k thislevel seen \<longleftrightarrow>
     set thislevel = {v. distance_is adj s k v} \<and> set seen = reach_within adj s k \<and> distinct seen"

text \<open>
  The neighbours \<open>get_neighbors\<close> follows from a node: its successors, restricted to those
  that the relationship type filter lets pass.
\<close>

definition allowed_neighbors :: "MultiDiGraph \<Rightarrow> string list option \<Rightarrow> string \<Rightarrow> string list" where
  "allowed_neighbors g relationship_types u =
     filter (type_allowed g relationship_types u) (neighbors g u)"

text \<open>Every endpoint of an edge is a node, as networkx keeps its graphs.\<close>

definition graph_closed :: "MultiDiGraph \<Rightarrow> bool" where
  "graph_closed g \<longleftrightarrow> (\<forall>e\<in>set (edges g). has_node g (fst e) \<and> has_node g (fst (snd e)))"

section \<open>Example stores and graphs\<close>

text \<open>
  A \<open>LIKE\<close> operator for the examples: the pattern \<open>%q%\<close> matches the values that
  contain \<open>q\<close>, letter case aside.
\<close>

definition like_contains :: "string \<Rightarrow> string \<Rightarrow> bool" where
  "like_contains pattern v = is_substring (lower (butlast (tl pattern))) (lower v)"

definition entity_row :: "string \<Rightarrow> string \<Rightarrow> int \<Rightarrow> int option \<Rightarrow> Entity" where
  "entity_row i name valid_from valid_until =
     \<lparr>e_id = i, e_name = name, e_entity_type = ''concept'', e_description = None,
      e_event_time = valid_from, e_ingestion_time = valid_from, e_valid_from = valid_from,
      e_valid_until = valid_until, e_conversation_id = None, e_message_id = None,
      e_confidence = Some 1, e_meta_data = []\<rparr>"

definition relationship_row :: "string \<Rightarrow> string \<Rightarrow> string \<Rightarrow> int \<Rightarrow> int option \<Rightarrow> Relationship" where
  "relationship_row i src tgt valid_from valid_until =
     \<lparr>r_id = i, r_source_entity_id = src, r_target_entity_id = tgt,
      r_relationship_type = ''uses'', r_event_time = valid_from,
      r_ingestion_time = valid_from, r_valid_from = valid_from,
      r_valid_until = valid_until, r_conversation_id = None, r_message_id = None,
      r_confidence = Some 1, r_properties = []\<rparr>"

text \<open>A store whose entity query raises, and one whose relationship query raises.\<close>

definition failing_entities :: session where
  "failing_entities =
     \<lparr>entity_table = Inl StoreError, relationship_table = Inr [], message_table = Inr [],
      like = like_contains\<rparr>"

definition failing_relationships :: session where
  "failing_relationships =
     \<lparr>entity_table = Inr [entity_row ''e1'' ''Alpha'' 0 None],
      relationship_table = Inl StoreError, message_table = Inr [],
      like = like_contains\<rparr>"

text \<open>A graph built earlier, holding one node.\<close>

definition one_node_kg :: KnowledgeGraph where
  "one_node_kg =
     \<lparr>graph = \<lparr>nodes = [(''old'', None)], edges = []\<rparr>, last_refresh = Some 1\<rparr>"

text \<open>
  A store in which the entity \<open>e1\<close> becomes valid at time 10, while a relationship
  from \<open>e2\<close> to \<open>e1\<close> is valid from time 0.
\<close>

definition dangling_store :: session where
  "dangling_store =
     \<lparr>entity_table = Inr [entity_row ''e1'' ''Alpha'' 10 None, entity_row ''e2'' ''Beta'' 0 None],
      relationship_table = Inr [relationship_row ''r1'' ''e2'' ''e1'' 0 None],
      message_table = Inr [],
      like = like_contains\<rparr>"

text \<open>
  The candidates of the specification's example: the semantic source ranks \<open>m1\<close>,
  \<open>m2\<close>, the keyword source \<open>m2\<close>, \<open>m3\<close>.
\<close>

definition message_candidate :: "string \<Rightarrow> real \<Rightarrow> string \<Rightarrow> SearchResult" where
  "message_candidate i sc src =
     \<lparr>item_id = i, item_type = ''message'', content = [], score = sc, source = src,
      metadata = []\<rparr>"

definition example_candidates :: "SearchResult list" where
  "example_candidates =
     [message_candidate ''m1'' (95 / 100) ''semantic'',
      message_candidate ''m2'' (70 / 100) ''semantic'',
      message_candidate ''m2'' (80 / 100) ''keyword'',
      message_candidate ''m3'' (60 / 100) ''keyword'']"

text \<open>
  A store with a hub: the entities \<open>b\<close>, \<open>c\<close>, \<open>d\<close>, \<open>e\<close> carry a \<open>q\<close> in their names
  and each has one relationship to the entity \<open>a\<close>, whose name has none.  The knowledge
  graph is the one \<open>build_graph\<close> makes of this store.
\<close>

definition hub_store :: session where
  "hub_store =
     \<lparr>entity_table = Inr [entity_row ''a'' ''hub'' 0 None, entity_row ''b'' ''qb'' 0 None,
                          entity_row ''c'' ''qc'' 0 None, entity_row ''d'' ''qd'' 0 None,
                          entity_row ''e'' ''qe'' 0 None],
      relationship_table = Inr [relationship_row ''r1'' ''b'' ''a'' 0 None,
                                relationship_row ''r2'' ''c'' ''a'' 0 None,
                                relationship_row ''r3'' ''d'' ''a'' 0 None,
                                relationship_row ''r4'' ''e'' ''a'' 0 None],
      message_table = Inr [],
      like = like_contains\<rparr>"

definition hub_kg :: KnowledgeGraph where
  "hub_kg = fst (build_graph init_kg hub_store None 0 1)"

text \<open>
  Vector clients and embedding models: a client without hits, one that raises, one with
  two hits; a model that returns a vector, and one that raises.
\<close>

definition no_hits :: "real list \<Rightarrow> int \<Rightarrow> real \<Rightarrow> error + hit list" where
  "no_hits v l t = Inr []"

definition failing_client :: "real list \<Rightarrow> int \<Rightarrow> real \<Rightarrow> error + hit list" where
  "failing_client v l t = Inl VectorClientError"

definition two_hits :: "real list \<Rightarrow> int \<Rightarrow> real \<Rightarrow> error + hit list" where
  "two_hits v l t =
     Inr [\<lparr>h_id = ''1'', h_score = 9 / 10, h_content = Some ''first'',
           h_conversation_id = None, h_role = None, h_timestamp = None\<rparr>,
          \<lparr>h_id = ''2'', h_score = 3 / 10, h_content = Some ''second'',
           h_conversation_id = None, h_role = None, h_timestamp = None\<rparr>]"

definition unit_embedding :: "string \<Rightarrow> error + real list" where
  "unit_embedding q = Inr [1]"

definition failing_embedding :: "string \<Rightarrow> error + real list" where
  "failing_embedding q = Inl EmbeddingError"

definition hub_search :: HybridSearch where
  "hub_search = \<lparr>qdrant = no_hits, embedding_model = unit_embedding, kg = hub_kg\<rparr>"

definition two_hits_search :: HybridSearch where
  "two_hits_search = \<lparr>qdrant = two_hits, embedding_model = unit_embedding, kg = hub_kg\<rparr>"

definition failing_client_search :: HybridSearch where
  "failing_client_search =
     \<lparr>qdrant = failing_client, embedding_model = unit_embedding, kg = hub_kg\<rparr>"

definition failing_embedding_search :: HybridSearch where
  "failing_embedding_search =
     \<lparr>qdrant = two_hits, embedding_model = failing_embedding, kg = hub_kg\<rparr>"

chapter \<open>Properties\<close>

section \<open>De-duplication keeps the earliest entity of greatest confidence\<close>

lemma earliest_max_snoc_keep:
  assumes "earliest_max es e" "entity_key x = entity_key e \<longrightarrow> x_confidence x \<le> x_confidence e"
  shows "earliest_max (es @ [x]) e"
proof -
  from assms(1) obtain pre post where h: "es = pre @ e # post"
      "\<forall>y\<in>set pre. entity_key y = entity_key e \<longrightarrow> x_confidence y < x_confidence e"
      "\<forall>y\<in>set post. entity_key y = entity_key e \<longrightarrow> x_confidence y \<le> x_confidence e"
    unfolding earliest_max_def by blast
  have "es @ [x] = pre @ e # (post @ [x])" using h(1) by simp
  moreover have "\<forall>y\<in>set (post @ [x]). entity_key y = entity_key e \<longrightarrow> x_confidence y \<le> x_confidence e"
    using h(3) assms(2) by auto
  ultimately show ?thesis unfolding earliest_max_def using h(2) by blast
qed

lemma earliest_max_snoc_new:
  assumes "\<forall>y\<in>set es. entity_key y = entity_key x \<longrightarrow> x_confidence y < x_confidence x"
  shows "earliest_max (es @ [x]) x"
  unfolding earliest_max_def using assms by (intro exI[of _ es] exI[of _ "[]"]) simp

lemma earliest_max_bound:
  "earliest_max es e \<Longrightarrow> y \<in> set es \<Longrightarrow> entity_key y = entity_key e \<Longrightarrow> x_confidence y \<le> x_confidence e"
  unfolding earliest_max_def by (auto simp: less_imp_le)

definition seen_inv :: "extracted list \<Rightarrow> ((string \<times> string) \<times> extracted) list \<Rightarrow> bool" where
  "seen_inv es seen \<longleftrightarrow> distinct (map fst seen) \<and> fst ` set seen = entity_key ` set es
     \<and> (\<forall>k e. map_of seen k = Some e \<longrightarrow> k = entity_key e \<and> earliest_max es e)"

lemma seen_inv_step:
  assumes "seen_inv es seen"
  shows "seen_inv (es @ [x]) (seen_step seen x)"
proof -
  from assms have d: "distinct (map fst seen)" and dom: "fst ` set seen = entity_key ` set es"
    and val: "\<And>k e. map_of seen k = Some e \<Longrightarrow> k = entity_key e \<and> earliest_max es e"
    unfolding seen_inv_def by blast+
  show ?thesis
  proof (cases "map_of seen (entity_key x)")
    case None
    then have new: "entity_key x \<notin> entity_key ` set es"
      using dom by (simp add: map_of_eq_None_iff)
    have step: "seen_step seen x = AList.update (entity_key x) x seen"
      using None by (simp add: seen_step_def)
    have "\<forall>y\<in>set es. entity_key y \<noteq> entity_key x"
      using new by (metis imageI)
    then have "earliest_max (es @ [x]) x"
      by (intro earliest_max_snoc_new) simp
    moreover have "\<And>k e. map_of seen k = Some e \<Longrightarrow> earliest_max (es @ [x]) e"
    proof -
      fix k e assume m: "map_of seen k = Some e"
      then have "k = entity_key e" "earliest_max es e" using val by blast+
      moreover have "entity_key e \<in> entity_key ` set es"
        using m dom \<open>k = entity_key e\<close> by (metis domI dom_map_of_conv_image_fst)
      ultimately show "earliest_max (es @ [x]) e"
        using new by (intro earliest_max_snoc_keep) auto
    qed
    ultimately show ?thesis
      unfolding seen_inv_def step using d dom val
      by (auto simp: distinct_update dom_update update_conv' split: if_splits)
  next
    case (Some kept)
    then have kk: "entity_key x = entity_key kept" and km: "earliest_max es kept"
      using val by blast+
    show ?thesis
    proof (cases "x_confidence x > x_confidence kept")
      case True
      have step: "seen_step seen x = AList.update (entity_key x) x seen"
        using Some True by (simp add: seen_step_def)
      have "\<forall>y\<in>set es. entity_key y = entity_key x \<longrightarrow> x_confidence y < x_confidence x"
        using earliest_max_bound[OF km] kk True by fastforce
      then have nx: "earliest_max (es @ [x]) x" by (rule earliest_max_snoc_new)
      have "\<And>k e. map_of seen k = Some e \<Longrightarrow> k \<noteq> entity_key x \<Longrightarrow> earliest_max (es @ [x]) e"
      proof -
        fix k e assume m: "map_of seen k = Some e" and ne: "k \<noteq> entity_key x"
        then have "k = entity_key e" "earliest_max es e" using val by blast+
        then show "earliest_max (es @ [x]) e"
          using ne by (intro earliest_max_snoc_keep) auto
      qed
      moreover have "entity_key x \<in> fst ` set seen"
        using Some by (metis domI dom_map_of_conv_image_fst)
      ultimately show ?thesis
        unfolding seen_inv_def step using d dom val nx
        by (auto simp: distinct_update dom_update update_conv' split: if_splits)
    next
      case False
      have step: "seen_step seen x = seen"
        using Some False by (simp add: seen_step_def)
      have "\<And>k e. map_of seen k = Some e \<Longrightarrow> earliest_max (es @ [x]) e"
      proof -
        fix k e assume m: "map_of seen k = Some e"
        then have ke: "k = entity_key e" "earliest_max es e" using val by blast+
        show "earliest_max (es @ [x]) e"
        proof (rule earliest_max_snoc_keep[OF ke(2)], rule impI)
          assume "entity_key x = entity_key e"
          then have "e = kept" using m Some ke(1) by simp
          then show "x_confidence x \<le> x_confidence e" using False by simp
        qed
      qed
      moreover have "entity_key x \<in> fst ` set seen"
        using Some by (metis domI dom_map_of_conv_image_fst)
      ultimately show ?thesis
        unfolding seen_inv_def step using d dom val by auto
    qed
  qed
qed

lemma seen_inv_foldl: "seen_inv es (foldl seen_step [] es)"
proof (induction es rule: rev_induct)
  case Nil
  show ?case by (simp add: seen_inv_def)
next
  case (snoc x xs)
  then show ?case using seen_inv_step by simp
qed

lemma seen_keys: 
  assumes "seen_inv es seen" shows "map entity_key (map snd seen) = map fst seen"
proof -
  have "\<And>p. p \<in> set seen \<Longrightarrow> entity_key (snd p) = fst p"
  proof -
    fix p assume "p \<in> set seen"
    then have "map_of seen (fst p) = Some (snd p)"
      using assms unfolding seen_inv_def by simp
    then show "entity_key (snd p) = fst p" using assms unfolding seen_inv_def by metis
  qed
  then show ?thesis by simp
qed

text \<open>
  Claim C10.  \<open>deduplicate_entities\<close> returns exactly one entity for every key
  (lower-cased name, entity type) of the input, and the entity kept for a key is the
  earliest one among those of greatest confidence: a later entity replaces the kept one
  only when its confidence is strictly greater, so the first occurrence wins a tie.
\<close>

theorem deduplicate_entities_earliest_max:
  "distinct (map entity_key (deduplicate_entities es))
   \<and> entity_key ` set (deduplicate_entities es) = entity_key ` set es
   \<and> (\<forall>e\<in>set (deduplicate_entities es). earliest_max es e)"
proof -
  let ?seen = "foldl seen_step [] es"
  have inv: "seen_inv es ?seen" by (rule seen_inv_foldl)
  have k: "map entity_key (deduplicate_entities es) = map fst ?seen"
    using seen_keys[OF inv] by (simp add: deduplicate_entities_def)
  have 1: "distinct (map entity_key (deduplicate_entities es))"
    using inv unfolding k seen_inv_def by simp
  have "set (map entity_key (deduplicate_entities es)) = entity_key ` set es"
    using inv unfolding k seen_inv_def by simp
  then have 2: "entity_key ` set (deduplicate_entities es) = entity_key ` set es" by simp
  have 3: "\<forall>e\<in>set (deduplicate_entities es). earliest_max es e"
  proof
    fix e assume "e \<in> set (deduplicate_entities es)"
    then obtain k where "(k, e) \<in> set ?seen"
      by (auto simp: deduplicate_entities_def)
    then have "map_of ?seen k = Some e" using inv unfolding seen_inv_def by simp
    then show "earliest_max es e" using inv unfolding seen_inv_def by blast
  qed
  show ?thesis using 1 2 3 by blast
qed

text \<open>
  The theorem at a concrete input: two spellings of one name with equal confidence,
  then another name.  The first spelling is kept.
\<close>

theorem deduplicate_entities_earliest_max_witness:
  "\<lparr>x_id = ''1'', x_name = ''Ab'', x_entity_type = ''tool'', x_description = [],
      x_conversation_id = [], x_confidence = 1 / 2\<rparr>
     \<in> set (deduplicate_entities
        [\<lparr>x_id = ''1'', x_name = ''Ab'', x_entity_type = ''tool'', x_description = [],
           x_conversation_id = [], x_confidence = 1 / 2\<rparr>,
         \<lparr>x_id = ''2'', x_name = ''aB'', x_entity_type = ''tool'', x_description = [],
           x_conversation_id = [], x_confidence = 1 / 2\<rparr>,
         \<lparr>x_id = ''3'', x_name = ''c'', x_entity_type = ''tool'', x_description = [],
           x_conversation_id = [], x_confidence = 1\<rparr>])
   \<and> earliest_max
        [\<lparr>x_id = ''1'', x_name = ''Ab'', x_entity_type = ''tool'', x_description = [],
           x_conversation_id = [], x_confidence = 1 / 2\<rparr>,
         \<lparr>x_id = ''2'', x_name = ''aB'', x_entity_type = ''tool'', x_description = [],
           x_conversation_id = [], x_confidence = 1 / 2\<rparr>,
         \<lparr>x_id = ''3'', x_name = ''c'', x_entity_type = ''tool'', x_description = [],
           x_conversation_id = [], x_confidence = 1\<rparr>]
        \<lparr>x_id = ''1'', x_name = ''Ab'', x_entity_type = ''tool'', x_description = [],
           x_conversation_id = [], x_confidence = 1 / 2\<rparr>"
proof -
  let ?e1 = "\<lparr>x_id = ''1'', x_name = ''Ab'', x_entity_type = ''tool'', x_description = [],
      x_conversation_id = [], x_confidence = 1 / 2\<rparr>"
  let ?es = "[?e1,
         \<lparr>x_id = ''2'', x_name = ''aB'', x_entity_type = ''tool'', x_description = [],
           x_conversation_id = [], x_confidence = 1 / 2\<rparr>,
         \<lparr>x_id = ''3'', x_name = ''c'', x_entity_type = ''tool'', x_description = [],
           x_conversation_id = [], x_confidence = 1\<rparr>]"
  have m: "?e1 \<in> set (deduplicate_entities ?es)"
    by code_simp
  then show ?thesis
    using deduplicate_entities_earliest_max [of ?es] by blast
qed

section \<open>Building the graph\<close>

lemma entity_node_nodes:
  "fst ` set (nodes (entity_node g e)) = insert (e_id e) (fst ` set (nodes g))"
  by (simp add: entity_node_def add_node_def dom_update)

lemma entity_node_edges: "edges (entity_node g e) = edges g"
  by (simp add: entity_node_def add_node_def)

lemma foldl_entity_node_nodes:
  "fst ` set (nodes (foldl entity_node g es)) = fst ` set (nodes g) \<union> e_id ` set es"
  by (induction es arbitrary: g) (auto simp: entity_node_nodes)

lemma foldl_entity_node_edges: "edges (foldl entity_node g es) = edges g"
  by (induction es arbitrary: g) (auto simp: entity_node_edges)

lemma ensure_node_nodes:
  "fst ` set (nodes (ensure_node g n)) = insert n (fst ` set (nodes g))"
  by (auto simp: ensure_node_def has_node_def)

lemma relationship_edge_nodes:
  "fst ` set (nodes (relationship_edge g r))
     = insert (r_source_entity_id r) (insert (r_target_entity_id r) (fst ` set (nodes g)))"
  by (auto simp: relationship_edge_def add_edge_def Let_def ensure_node_nodes)

lemma foldl_relationship_edge_nodes:
  "fst ` set (nodes (foldl relationship_edge g rs))
     = fst ` set (nodes g) \<union> r_source_entity_id ` set rs \<union> r_target_entity_id ` set rs"
  by (induction rs arbitrary: g) (auto simp: relationship_edge_nodes)

lemma build_graph_entity_failure:
  "entity_table s = Inl err \<Longrightarrow>
     build_graph k s as_of now0 now1 = (k\<lparr>graph := empty_graph\<rparr>, Inl err)"
  by (simp add: build_graph_def select_entities_valid_def Let_def)

lemma build_graph_relationship_failure:
  assumes "entity_table s = Inr rows" "relationship_table s = Inl err"
  shows "build_graph k s as_of now0 now1 =
     (k\<lparr>graph := foldl entity_node empty_graph
          (filter (\<lambda>e. valid_at (effective_as_of as_of now0) (e_valid_from e) (e_valid_until e)) rows)\<rparr>,
      Inl err)"
  using assms
  by (simp add: build_graph_def select_entities_valid_def select_relationships_valid_def
      Let_def effective_as_of_def)

text \<open>
  Claim C1, as the code has it.  When the entity query or the relationship query
  raises, \<open>build_graph\<close> passes the error to the caller and leaves the time of the last
  refresh as it was, but the graph is not restored: it was cleared before the first
  query.  After a failed entity query the graph is empty; after a failed relationship
  query it holds the nodes of the entities valid at \<open>as_of\<close> and no edge.
\<close>

theorem build_graph_store_failure:
  "(entity_table s = Inl err \<longrightarrow>
      build_graph k s as_of now0 now1 = (k\<lparr>graph := empty_graph\<rparr>, Inl err))
   \<and> (entity_table s = Inr rows \<and> relationship_table s = Inl err \<longrightarrow>
      snd (build_graph k s as_of now0 now1) = Inl err
      \<and> last_refresh (fst (build_graph k s as_of now0 now1)) = last_refresh k
      \<and> edges (graph (fst (build_graph k s as_of now0 now1))) = []
      \<and> fst ` set (nodes (graph (fst (build_graph k s as_of now0 now1))))
          = e_id ` {e \<in> set rows.
               valid_at (effective_as_of as_of now0) (e_valid_from e) (e_valid_until e)})"
proof (intro conjI impI)
  assume "entity_table s = Inl err"
  then show "build_graph k s as_of now0 now1 = (k\<lparr>graph := empty_graph\<rparr>, Inl err)"
    by (rule build_graph_entity_failure)
next
  assume a: "entity_table s = Inr rows \<and> relationship_table s = Inl err"
  note b = build_graph_relationship_failure[of s rows err k as_of now0 now1]
  show "snd (build_graph k s as_of now0 now1) = Inl err" using a b by simp
  show "last_refresh (fst (build_graph k s as_of now0 now1)) = last_refresh k"
    using a b by simp
  show "edges (graph (fst (build_graph k s as_of now0 now1))) = []"
    using a b by (simp add: foldl_entity_node_edges empty_graph_def)
  show "fst ` set (nodes (graph (fst (build_graph k s as_of now0 now1))))
          = e_id ` {e \<in> set rows.
               valid_at (effective_as_of as_of now0) (e_valid_from e) (e_valid_until e)}"
    using a b by (simp add: foldl_entity_node_nodes empty_graph_def)
qed

text \<open>The theorem at the two failing example stores.\<close>

theorem build_graph_store_failure_witness:
  "build_graph one_node_kg failing_entities (Some 5) 0 1
     = (one_node_kg\<lparr>graph := empty_graph\<rparr>, Inl StoreError)
   \<and> snd (build_graph one_node_kg failing_relationships (Some 5) 0 1) = Inl StoreError
   \<and> last_refresh (fst (build_graph one_node_kg failing_relationships (Some 5) 0 1)) = Some 1
   \<and> edges (graph (fst (build_graph one_node_kg failing_relationships (Some 5) 0 1))) = []"
proof -
  have 1: "entity_table failing_entities = Inl StoreError"
    by (simp add: failing_entities_def)
  have 2: "entity_table failing_relationships = Inr [entity_row ''e1'' ''Alpha'' 0 None]
           \<and> relationship_table failing_relationships = Inl StoreError"
    by (simp add: failing_relationships_def)
  have 3: "last_refresh one_node_kg = Some 1" by (simp add: one_node_kg_def)
  show ?thesis
    using 1 2 3
      build_graph_store_failure [of failing_entities StoreError one_node_kg "Some 5" 0 1 "[]"]
      build_graph_store_failure [of failing_relationships StoreError one_node_kg "Some 5" 0 1
        "[entity_row ''e1'' ''Alpha'' 0 None]"]
    by simp
qed

text \<open>
  Claim C1 as stated fails: a graph with one node is empty after a build whose entity
  query raises.
\<close>

theorem build_graph_clears_on_failure:
  "snd (build_graph one_node_kg failing_entities (Some 5) 0 1) = Inl StoreError
   \<and> nodes (graph (fst (build_graph one_node_kg failing_entities (Some 5) 0 1))) = []
   \<and> nodes (graph one_node_kg) = [(''old'', None)]"
  by (simp add: build_graph_def select_entities_valid_def failing_entities_def
      one_node_kg_def empty_graph_def)

text \<open>
  Claim C6.  At \<open>as_of = 5\<close> the entity \<open>e1\<close>, valid from 10, is not selected, but the
  relationship from \<open>e2\<close> to \<open>e1\<close> is, and \<open>add_edge\<close> makes its endpoint \<open>e1\<close> a node:
  the graph has the node \<open>e1\<close> although \<open>valid_from <= as_of\<close> is false for it.
\<close>

theorem build_graph_dangling_endpoint:
  "snd (build_graph init_kg dangling_store (Some 5) 0 1) = Inr 2
   \<and> has_node (graph (fst (build_graph init_kg dangling_store (Some 5) 0 1))) ''e1''
   \<and> \<not> valid_at 5 10 None"
  by code_simp

text \<open>
  The nodes of a graph that was built are the entities valid at \<open>as_of\<close> together with the
  endpoints of the relationships valid at \<open>as_of\<close>.
\<close>

lemma build_graph_nodes:
  assumes "entity_table s = Inr es" "relationship_table s = Inr rs"
  shows "has_node (graph (fst (build_graph k s as_of now0 now1))) n \<longleftrightarrow>
     n \<in> e_id ` {e \<in> set es. valid_at (effective_as_of as_of now0) (e_valid_from e) (e_valid_until e)}
     \<or> n \<in> r_source_entity_id ` {r \<in> set rs. valid_at (effective_as_of as_of now0) (r_valid_from r) (r_valid_until r)}
     \<or> n \<in> r_target_entity_id ` {r \<in> set rs. valid_at (effective_as_of as_of now0) (r_valid_from r) (r_valid_until r)}"
  using assms
  by (auto simp: build_graph_def select_entities_valid_def select_relationships_valid_def
      Let_def effective_as_of_def has_node_def foldl_relationship_edge_nodes
      foldl_entity_node_nodes empty_graph_def)

section \<open>Reciprocal rank fusion\<close>

subsection \<open>Keys and grouping by source\<close>

lemma split_at_first:
  "x \<notin> set xs \<Longrightarrow> x \<notin> set xs' \<Longrightarrow> xs @ x # ys = xs' @ x # ys' \<Longrightarrow> xs = xs' \<and> ys = ys'"
proof (induction xs arbitrary: xs')
  case Nil
  then show ?case by (cases xs') auto
next
  case (Cons a xs)
  then show ?case by (cases xs') auto
qed

lemma result_key_inj:
  assumes "CHR '':'' \<notin> set (item_type a)" "CHR '':'' \<notin> set (item_type b)"
  shows "result_key a = result_key b \<longleftrightarrow> pair_key a = pair_key b"
proof
  assume "result_key a = result_key b"
  then have "item_type a @ CHR '':'' # item_id a = item_type b @ CHR '':'' # item_id b"
    by (simp add: result_key_def)
  from split_at_first[OF assms this] show "pair_key a = pair_key b"
    by (simp add: pair_key_def)
next
  assume "pair_key a = pair_key b"
  then show "result_key a = result_key b" by (simp add: pair_key_def result_key_def)
qed

lemma update_absent: "k \<notin> fst ` set al \<Longrightarrow> AList.update k v al = al @ [(k, v)]"
  by (induction al) auto

lemma group_inv_step:
  assumes "group_inv cs G"
  shows "group_inv (cs @ [r]) (group_step G r)"
proof -
  from assms have d: "distinct (map fst G)" and dom: "fst ` set G = source ` set cs"
    and val: "\<And>src rs. map_of G src = Some rs \<Longrightarrow> rs = filter (\<lambda>c. source c = src) cs"
    unfolding group_inv_def by blast+
  show ?thesis
  proof (cases "map_of G (source r)")
    case None
    then have new: "source r \<notin> source ` set cs"
      using dom by (simp add: map_of_eq_None_iff)
    then have "\<forall>c\<in>set cs. source c \<noteq> source r"
      by (metis imageI)
    then have e: "filter (\<lambda>c. source c = source r) cs = []"
      by (simp add: filter_empty_conv)
    have step: "group_step G r = AList.update (source r) [r] G"
      using None by (simp add: group_step_def)
    show ?thesis
      unfolding group_inv_def step using d dom val e
      by (auto simp: distinct_update dom_update update_conv' split: if_splits)
  next
    case (Some rs)
    then have rs: "rs = filter (\<lambda>c. source c = source r) cs" using val by blast
    have step: "group_step G r = AList.update (source r) (rs @ [r]) G"
      using Some by (simp add: group_step_def)
    have "source r \<in> fst ` set G"
      using Some by (metis domI dom_map_of_conv_image_fst)
    then show ?thesis
      unfolding group_inv_def step using d dom val rs
      by (auto simp: distinct_update dom_update update_conv' split: if_splits)
  qed
qed

lemma group_inv_foldl: "group_inv cs (foldl group_step [] cs)"
proof (induction cs rule: rev_induct)
  case Nil
  show ?case by (simp add: group_inv_def)
next
  case (snoc x xs)
  then show ?case using group_inv_step by simp
qed

lemma alist_as_map:
  assumes "distinct (map fst al)" "\<And>k v. map_of al k = Some v \<Longrightarrow> v = f k"
  shows "al = map (\<lambda>k. (k, f k)) (map fst al)"
  using assms
proof (induction al)
  case Nil
  show ?case by simp
next
  case (Cons p al)
  obtain a b where p: "p = (a, b)" by (cases p)
  have b: "b = f a" using Cons.prems(2)[of a b] p by simp
  have "\<And>k v. map_of al k = Some v \<Longrightarrow> v = f k"
  proof -
    fix k v assume m: "map_of al k = Some v"
    then have "k \<in> fst ` set al" by (metis domI dom_map_of_conv_image_fst)
    then have "k \<noteq> a" using Cons.prems(1) p by auto
    then show "v = f k" using Cons.prems(2)[of k v] m p by simp
  qed
  then have "al = map (\<lambda>k. (k, f k)) (map fst al)"
    using Cons.IH Cons.prems(1) by simp
  then show ?case using p b by simp
qed

lemma groups_list:
  assumes "group_inv cs G"
  shows "G = map (\<lambda>src. (src, filter (\<lambda>c. source c = src) cs)) (map fst G)"
  using assms unfolding group_inv_def by (intro alist_as_map) auto

subsection \<open>The accumulation\<close>

lemma rrf_step_pair:
  "rrf_step (S, M) (rank, r) =
     (AList.update (result_key r)
        ((case map_of S (result_key r) of None \<Rightarrow> 0 | Some v \<Rightarrow> v) + 1 / (60 + real rank)) S,
      AList.update (result_key r) r M)"
  by (simp add: rrf_step_def Let_def)

lemma contributions_Cons:
  "contributions k ((rank, r) # ps) =
     (if result_key r = k then 1 / (60 + real rank) else 0) + contributions k ps"
  by (simp add: contributions_def)

lemma contributions_Nil: "contributions k [] = 0"
  by (simp add: contributions_def)

lemma contributions_absent:
  "k \<notin> result_key ` snd ` set ps \<Longrightarrow> contributions k ps = 0"
  by (induction ps) (auto simp: contributions_def)

lemma accumulate_scores:
  "map_of (fst (foldl rrf_step (S, M) ps)) k =
     (if k \<in> result_key ` snd ` set ps
      then Some ((case map_of S k of None \<Rightarrow> 0 | Some v \<Rightarrow> v) + contributions k ps)
      else map_of S k)"
proof (induction ps arbitrary: S M)
  case Nil
  show ?case by simp
next
  case (Cons p ps)
  obtain rank r where p: "p = (rank, r)" by (cases p)
  show ?case
    unfolding p foldl_Cons rrf_step_pair Cons.IH
    by (auto simp: update_conv' contributions_Cons contributions_absent)
qed

lemma accumulate_score_keys:
  "fst ` set (fst (foldl rrf_step (S, M) ps)) = fst ` set S \<union> result_key ` snd ` set ps"
proof (induction ps arbitrary: S M)
  case Nil
  show ?case by simp
next
  case (Cons p ps)
  obtain rank r where p: "p = (rank, r)" by (cases p)
  show ?case
    unfolding p foldl_Cons rrf_step_pair Cons.IH
    by (auto simp: dom_update)
qed

lemma accumulate_distinct:
  "distinct (map fst S) \<Longrightarrow> distinct (map fst (fst (foldl rrf_step (S, M) ps)))"
proof (induction ps arbitrary: S M)
  case Nil
  then show ?case by simp
next
  case (Cons p ps)
  obtain rank r where p: "p = (rank, r)" by (cases p)
  show ?case
    unfolding p foldl_Cons rrf_step_pair
    by (rule Cons.IH) (simp add: distinct_update Cons.prems)
qed

lemma accumulate_items:
  "map_of (snd (foldl rrf_step (S, M) ps)) k = Some r \<Longrightarrow>
     map_of M k = Some r \<or> (r \<in> snd ` set ps \<and> result_key r = k)"
proof (induction ps arbitrary: S M)
  case Nil
  then show ?case by simp
next
  case (Cons p ps)
  obtain rank r' where p: "p = (rank, r')" by (cases p)
  from Cons.prems have
    "map_of (snd (foldl rrf_step
        (AList.update (result_key r')
          ((case map_of S (result_key r') of None \<Rightarrow> 0 | Some v \<Rightarrow> v) + 1 / (60 + real rank)) S,
         AList.update (result_key r') r' M) ps)) k = Some r"
    unfolding p foldl_Cons rrf_step_pair .
  from Cons.IH[OF this] show ?case
    unfolding p by (auto simp: update_conv' split: if_splits)
qed

lemma accumulate_item_keys:
  "fst ` set (snd (foldl rrf_step (S, M) ps)) = fst ` set M \<union> result_key ` snd ` set ps"
proof (induction ps arbitrary: S M)
  case Nil
  show ?case by simp
next
  case (Cons p ps)
  obtain rank r where p: "p = (rank, r)" by (cases p)
  show ?case
    unfolding p foldl_Cons rrf_step_pair Cons.IH
    by (auto simp: dom_update)
qed

lemma foldl_concat_steps:
  "foldl (\<lambda>st (src, source_results). foldl rrf_step st (enumerate 1 source_results)) st G
     = foldl rrf_step st (ranked_entries G)"
  by (induction G arbitrary: st) (auto simp: ranked_entries_def)

lemma rrf_accumulate_entries:
  "rrf_accumulate G = foldl rrf_step ([], []) (ranked_entries G)"
  unfolding rrf_accumulate_def by (rule foldl_concat_steps)

subsection \<open>The ranked entries, source by source\<close>

lemma group_sources:
  "distinct (map fst (foldl group_step [] cs))"
  "set (map fst (foldl group_step [] cs)) = source ` set cs"
  using group_inv_foldl[of cs] unfolding group_inv_def by auto

lemma by_source_sorted_list:
  "by_source_sorted cs
     = map (\<lambda>src. (src, source_ranking cs src)) (map fst (foldl group_step [] cs))"
proof -
  let ?G = "foldl group_step [] cs"
  have "by_source_sorted cs = map (\<lambda>(src, rs). (src, sort_by_score rs))
          (map (\<lambda>src. (src, filter (\<lambda>c. source c = src) cs)) (map fst ?G))"
    unfolding by_source_sorted_def using groups_list[OF group_inv_foldl, of cs] by simp
  then show ?thesis
    by (simp add: source_ranking_def sort_by_score_def comp_def)
qed

lemma entries_list:
  "ranked_entries (by_source_sorted cs)
     = concat (map (\<lambda>src. enumerate 1 (source_ranking cs src)) (map fst (foldl group_step [] cs)))"
  unfolding ranked_entries_def by_source_sorted_list by (simp add: comp_def)

lemma source_ranking_set: "set (source_ranking cs src) = {c \<in> set cs. source c = src}"
  by (auto simp: source_ranking_def)

lemma snd_set_enumerate: "snd ` set (enumerate n xs) = set xs"
  using map_snd_enumerate[of n xs] by (metis set_map)

lemma entries_set: "snd ` set (ranked_entries (by_source_sorted cs)) = set cs"
proof -
  let ?srcs = "map fst (foldl group_step [] cs)"
  have "set (ranked_entries (by_source_sorted cs))
      = (\<Union>src\<in>set ?srcs. set (enumerate 1 (source_ranking cs src)))"
    unfolding entries_list by auto
  then have "snd ` set (ranked_entries (by_source_sorted cs))
      = (\<Union>src\<in>set ?srcs. set (source_ranking cs src))"
    by (simp only: image_UN snd_set_enumerate)
  also have "\<dots> = (\<Union>src\<in>source ` set cs. set (source_ranking cs src))"
    using group_sources(2)[of cs] by simp
  also have "\<dots> = set cs" by (auto simp: source_ranking_set)
  finally show ?thesis .
qed

lemma entries_rank: "p \<in> set (ranked_entries (by_source_sorted cs)) \<Longrightarrow> 1 \<le> fst p"
  unfolding entries_list by (auto simp: in_set_enumerate_eq)

lemma contributions_append:
  "contributions k (ps @ qs) = contributions k ps + contributions k qs"
  by (simp add: contributions_def)

lemma contributions_concat:
  "contributions k (concat (map h xs)) = sum_list (map (\<lambda>x. contributions k (h x)) xs)"
  by (induction xs) (auto simp: contributions_Nil contributions_append)

lemma contributions_spec:
  assumes free: "\<forall>c\<in>set cs. CHR '':'' \<notin> set (item_type c)" and r: "r \<in> set cs"
  shows "contributions (result_key r) (ranked_entries (by_source_sorted cs))
           = rrf_score cs (pair_key r)"
proof -
  let ?srcs = "map fst (foldl group_step [] cs)"
  have one: "contributions (result_key r) (enumerate 1 (source_ranking cs src))
               = source_contribution cs src (pair_key r)" for src
  proof -
    have "\<And>p. p \<in> set (enumerate 1 (source_ranking cs src)) \<Longrightarrow>
            (result_key (snd p) = result_key r) = (pair_key (snd p) = pair_key r)"
    proof -
      fix p assume "p \<in> set (enumerate 1 (source_ranking cs src))"
      then have "snd p \<in> set (source_ranking cs src)"
        by (metis in_set_zipE enumerate_eq_zip prod.collapse)
      then have "snd p \<in> set cs" by (simp add: source_ranking_set)
      then show "(result_key (snd p) = result_key r) = (pair_key (snd p) = pair_key r)"
        using free r result_key_inj by blast
    qed
    then show ?thesis
      unfolding contributions_def source_contribution_def
      by (intro arg_cong[where f = sum_list] map_cong) (auto split: prod.splits)
  qed
  have "contributions (result_key r) (ranked_entries (by_source_sorted cs))
      = sum_list (map (\<lambda>src. source_contribution cs src (pair_key r)) ?srcs)"
    unfolding entries_list contributions_concat using one by simp
  also have "\<dots> = sum (\<lambda>src. source_contribution cs src (pair_key r)) (set ?srcs)"
    using group_sources(1)[of cs] by (rule sum_list_distinct_conv_sum_set)
  also have "\<dots> = sum (\<lambda>src. source_contribution cs src (pair_key r)) (set (remdups (map source cs)))"
    using group_sources(2)[of cs] by simp
  also have "\<dots> = sum_list (map (\<lambda>src. source_contribution cs src (pair_key r)) (remdups (map source cs)))"
    by (rule sum_list_distinct_conv_sum_set[symmetric]) simp
  finally show ?thesis by (simp add: rrf_score_def)
qed

subsection \<open>The fused list\<close>

lemma accumulated_scores:
  "distinct (map fst (fst (rrf_accumulate (by_source_sorted cs))))"
  "fst ` set (fst (rrf_accumulate (by_source_sorted cs))) = result_key ` set cs"
  "map_of (fst (rrf_accumulate (by_source_sorted cs))) k = Some v \<Longrightarrow>
     v = contributions k (ranked_entries (by_source_sorted cs))"
proof -
  show "distinct (map fst (fst (rrf_accumulate (by_source_sorted cs))))"
    unfolding rrf_accumulate_entries by (rule accumulate_distinct) simp
  show "fst ` set (fst (rrf_accumulate (by_source_sorted cs))) = result_key ` set cs"
    unfolding rrf_accumulate_entries accumulate_score_keys by (simp add: entries_set)
  assume "map_of (fst (rrf_accumulate (by_source_sorted cs))) k = Some v"
  then show "v = contributions k (ranked_entries (by_source_sorted cs))"
    unfolding rrf_accumulate_entries accumulate_scores by (simp split: if_splits)
qed

lemma accumulated_items:
  assumes "k \<in> result_key ` set cs"
  shows "\<exists>r. map_of (snd (rrf_accumulate (by_source_sorted cs))) k = Some r
           \<and> r \<in> set cs \<and> result_key r = k"
proof -
  let ?M = "snd (rrf_accumulate (by_source_sorted cs))"
  have "k \<in> fst ` set ?M"
    unfolding rrf_accumulate_entries accumulate_item_keys using assms
    by (simp add: entries_set)
  then obtain r where r: "map_of ?M k = Some r"
    by (metis map_of_eq_None_iff not_Some_eq)
  then have "r \<in> snd ` set (ranked_entries (by_source_sorted cs)) \<and> result_key r = k"
    unfolding rrf_accumulate_entries using accumulate_items by fastforce
  then show ?thesis using r by (auto simp: entries_set)
qed

lemma fused_shape:
  assumes "\<forall>p\<in>set L. \<exists>r. M (fst p) = Some r \<and> result_key r = fst p"
  shows "map (\<lambda>x. (result_key x, score x))
           (concat (map (\<lambda>(key, v). case M key of None \<Rightarrow> [] | Some r \<Rightarrow> [r\<lparr>score := v\<rparr>]) L))
         = L"
  using assms by (induction L) (auto simp: result_key_def)

lemma distinct_map_insort:
  "distinct (map g (insort_key f x xs)) = (g x \<notin> g ` set xs \<and> distinct (map g xs))"
  by (induction xs) (auto simp: set_insort_key)

lemma distinct_map_sort_key: "distinct (map g (sort_key f xs)) = distinct (map g xs)"
  by (induction xs) (auto simp: distinct_map_insort)

lemma fused_keys_scores:
  "map (\<lambda>x. (result_key x, score x)) (fused cs)
     = sort_key (\<lambda>(key, v). - v) (fst (rrf_accumulate (by_source_sorted cs)))"
proof -
  let ?S = "fst (rrf_accumulate (by_source_sorted cs))"
  let ?M = "snd (rrf_accumulate (by_source_sorted cs))"
  have "\<forall>p\<in>set (sort_key (\<lambda>(key, v). - v) ?S).
          \<exists>r. map_of ?M (fst p) = Some r \<and> result_key r = fst p"
  proof
    fix p assume "p \<in> set (sort_key (\<lambda>(key, v). - v) ?S)"
    then have "fst p \<in> result_key ` set cs"
      using accumulated_scores(2)[of cs] by auto
    from accumulated_items[OF this]
    show "\<exists>r. map_of ?M (fst p) = Some r \<and> result_key r = fst p" by blast
  qed
  from fused_shape[of _ "map_of ?M", OF this] show ?thesis
    by (simp add: fused_def Let_def)
qed

lemma fused_distinct: "distinct (map result_key (fused cs))"
proof -
  have "map result_key (fused cs) = map fst (map (\<lambda>x. (result_key x, score x)) (fused cs))"
    by (simp add: comp_def)
  then show ?thesis
    unfolding fused_keys_scores using accumulated_scores(1)[of cs]
    by (simp add: distinct_map_sort_key)
qed

lemma fused_sorted: "sorted_wrt (\<lambda>a b. score b \<le> score a) (fused cs)"
proof -
  let ?L = "sort_key (\<lambda>(key, v). - v) (fst (rrf_accumulate (by_source_sorted cs)))"
  have "sorted (map (\<lambda>(key, v). - v) ?L)" by (rule sorted_sort_key)
  then have "sorted (map (\<lambda>(key, v). - v) (map (\<lambda>x. (result_key x, score x)) (fused cs)))"
    unfolding fused_keys_scores .
  then have "sorted (map (\<lambda>x. - score x) (fused cs))" by (simp add: comp_def)
  then show ?thesis by (simp add: sorted_map)
qed

lemma fused_elements:
  assumes "r' \<in> set (fused cs)"
  shows "\<exists>c\<in>set cs. r' = c\<lparr>score := contributions (result_key c) (ranked_entries (by_source_sorted cs))\<rparr>"
proof -
  let ?S = "fst (rrf_accumulate (by_source_sorted cs))"
  let ?M = "snd (rrf_accumulate (by_source_sorted cs))"
  from assms obtain k v r where kv: "(k, v) \<in> set ?S" and m0: "Some r = map_of ?M k"
    and r': "r' = r\<lparr>score := v\<rparr>"
    by (auto simp: fused_def Let_def split: option.splits)
  from m0 have m: "map_of ?M k = Some r" by simp
  have "map_of ?S k = Some v" using kv accumulated_scores(1)[of cs] by simp
  then have v: "v = contributions k (ranked_entries (by_source_sorted cs))"
    by (rule accumulated_scores(3))
  have "k \<in> result_key ` set cs" using kv accumulated_scores(2)[of cs] by force
  from accumulated_items[OF this] m have "r \<in> set cs" "result_key r = k" by auto
  then show ?thesis using r' v by blast
qed

lemma fused_key_set: "result_key ` set (fused cs) = result_key ` set cs"
proof -
  have "result_key ` set (fused cs) = set (map fst (map (\<lambda>x. (result_key x, score x)) (fused cs)))"
    by (simp add: comp_def)
  also have "\<dots> = result_key ` set cs"
    unfolding fused_keys_scores using accumulated_scores(2)[of cs] by simp
  finally show ?thesis .
qed

text \<open>
  Claim C5.  For candidates whose item types contain no colon (the strategies produce
  \<open>message\<close> and \<open>entity\<close>), so that the string key stands for the pair
  \<open>(item_type, item_id)\<close>: the fused list has exactly one entry for every pair among the
  candidates; the entry is one of the candidates of that pair with its score replaced by
  the sum, over the sources, of \<open>1 / (60 + r)\<close> for every candidate of the pair at rank
  \<open>r\<close> of the source's own descending ranking; the list is sorted by descending fused
  score; and \<open>_fuse_results\<close> returns its first \<open>limit\<close> entries.
\<close>

theorem fuse_results_rrf:
  assumes free: "\<forall>c\<in>set cs. CHR '':'' \<notin> set (item_type c)"
  shows "fuse_results cs limit = py_take limit (fused cs)
     \<and> (0 \<le> limit \<longrightarrow> fuse_results cs limit = take (nat limit) (fused cs))
     \<and> distinct (map pair_key (fused cs))
     \<and> pair_key ` set (fused cs) = pair_key ` set cs
     \<and> (\<forall>r\<in>set (fused cs). score r = rrf_score cs (pair_key r)
           \<and> (\<exists>c\<in>set cs. r = c\<lparr>score := rrf_score cs (pair_key c)\<rparr>))
     \<and> sorted_wrt (\<lambda>a b. score b \<le> score a) (fused cs)"
proof -
  have el: "\<exists>c\<in>set cs. r = c\<lparr>score := rrf_score cs (pair_key c)\<rparr>" if "r \<in> set (fused cs)" for r
  proof -
    from fused_elements[OF that] obtain c where c: "c \<in> set cs"
      and r: "r = c\<lparr>score := contributions (result_key c) (ranked_entries (by_source_sorted cs))\<rparr>"
      by blast
    show ?thesis using c r contributions_spec[OF free c] by auto
  qed
  have 1: "fuse_results cs limit = py_take limit (fused cs)"
    by (simp add: fuse_results_def)
  have 2: "0 \<le> limit \<longrightarrow> fuse_results cs limit = take (nat limit) (fused cs)"
    by (simp add: fuse_results_def py_take_def)
  have eq: "map result_key (fused cs) = map (\<lambda>p. fst p @ '':'' @ snd p) (map pair_key (fused cs))"
    by (simp add: result_key_def pair_key_def)
  have "distinct (map (\<lambda>p. fst p @ '':'' @ snd p) (map pair_key (fused cs)))"
    unfolding eq[symmetric] by (rule fused_distinct)
  then have 3: "distinct (map pair_key (fused cs))" by (simp only: distinct_map)
  have 4: "pair_key ` set (fused cs) = pair_key ` set cs"
  proof
    show "pair_key ` set (fused cs) \<subseteq> pair_key ` set cs"
    proof
      fix x assume "x \<in> pair_key ` set (fused cs)"
      then obtain r where "r \<in> set (fused cs)" "x = pair_key r" by blast
      with el[of r] show "x \<in> pair_key ` set cs" by (auto simp: pair_key_def)
    qed
    show "pair_key ` set cs \<subseteq> pair_key ` set (fused cs)"
    proof
      fix x assume "x \<in> pair_key ` set cs"
      then obtain c where c: "c \<in> set cs" "x = pair_key c" by blast
      then have "result_key c \<in> result_key ` set (fused cs)"
        using fused_key_set[of cs] by blast
      then obtain r where r: "r \<in> set (fused cs)" "result_key r = result_key c" by force
      from el[OF r(1)] obtain c' where c': "c' \<in> set cs" "item_type r = item_type c'"
        by auto
      have "CHR '':'' \<notin> set (item_type r)" "CHR '':'' \<notin> set (item_type c)"
        using free c' c(1) by auto
      from result_key_inj[OF this] r(2) have "pair_key r = pair_key c" by simp
      then have "x = pair_key r" using c(2) by simp
      then show "x \<in> pair_key ` set (fused cs)" using r(1) by (rule image_eqI)
    qed
  qed
  have 5: "\<forall>r\<in>set (fused cs). score r = rrf_score cs (pair_key r)
           \<and> (\<exists>c\<in>set cs. r = c\<lparr>score := rrf_score cs (pair_key c)\<rparr>)"
  proof
    fix r assume "r \<in> set (fused cs)"
    from el[OF this] obtain c where "c \<in> set cs" "r = c\<lparr>score := rrf_score cs (pair_key c)\<rparr>"
      by blast
    then show "score r = rrf_score cs (pair_key r)
           \<and> (\<exists>c\<in>set cs. r = c\<lparr>score := rrf_score cs (pair_key c)\<rparr>)"
      by (auto simp: pair_key_def)
  qed
  show ?thesis using 1 2 3 4 5 fused_sorted by blast
qed

text \<open>The theorem at the example of the specification.\<close>

theorem fuse_results_rrf_witness:
  "map item_id (fuse_results example_candidates 10) = [''m2'', ''m1'', ''m3'']
   \<and> fuse_results example_candidates 10 = take (nat 10) (fused example_candidates)
   \<and> distinct (map pair_key (fused example_candidates))
   \<and> sorted_wrt (\<lambda>a b. score b \<le> score a) (fused example_candidates)"
proof -
  have h: "\<forall>c\<in>set example_candidates. CHR '':'' \<notin> set (item_type c)"
    by (simp add: example_candidates_def message_candidate_def)
  have m: "map item_id (fuse_results example_candidates 10) = [''m2'', ''m1'', ''m3'']"
    by code_simp
  have z: "(0::int) \<le> 10" by simp
  show ?thesis
    using m z fuse_results_rrf [OF h, of 10] by blast
qed

subsection \<open>A bound on the fused scores\<close>

lemma contributions_le:
  assumes "\<forall>p\<in>set ps. 1 \<le> fst p"
  shows "contributions k ps \<le> real (length (filter (\<lambda>p. result_key (snd p) = k) ps)) / 61"
  using assms
proof (induction ps)
  case Nil
  show ?case by (simp add: contributions_Nil)
next
  case (Cons p ps)
  obtain rank r where p: "p = (rank, r)" by (cases p)
  have rank: "1 \<le> rank" using Cons.prems p by simp
  then have "1 / (60 + real rank) \<le> 1 / 61"
    by (simp add: frac_le)
  then have a: "(if result_key r = k then 1 / (60 + real rank) else 0)
                  \<le> (if result_key r = k then 1 else 0) / 61"
    by simp
  have b: "contributions k ps \<le> real (length (filter (\<lambda>p. result_key (snd p) = k) ps)) / 61"
    using Cons by simp
  have c: "real (length (filter (\<lambda>p. result_key (snd p) = k) ((rank, r) # ps))) / 61
             = (if result_key r = k then 1 else 0) / 61
               + real (length (filter (\<lambda>p. result_key (snd p) = k) ps)) / 61"
    by (simp add: add_divide_distrib)
  show ?case
    unfolding p contributions_Cons c using a b by (rule add_mono)
qed

lemma one_source:
  assumes "distinct srcs" "a \<in> set srcs"
  shows "sum_list (map (\<lambda>s. if a = s then (1::nat) else 0) srcs) = 1"
  using assms by (induction srcs) auto

lemma none_source:
  "a \<notin> set srcs \<Longrightarrow> sum_list (map (\<lambda>s. if a = s then (1::nat) else 0) srcs) = 0"
  by (induction srcs) auto

lemma partition_count:
  assumes "distinct srcs" "f ` set xs \<subseteq> set srcs"
  shows "sum_list (map (\<lambda>s. length (filter (\<lambda>x. P x \<and> f x = s) xs)) srcs) = length (filter P xs)"
  using assms(2)
proof (induction xs)
  case Nil
  show ?case by simp
next
  case (Cons x xs)
  have "sum_list (map (\<lambda>s. length (filter (\<lambda>x. P x \<and> f x = s) (x # xs))) srcs)
      = sum_list (map (\<lambda>s. (if P x \<and> f x = s then 1 else 0) + length (filter (\<lambda>x. P x \<and> f x = s) xs)) srcs)"
    by (intro arg_cong[where f = sum_list] map_cong) auto
  also have "\<dots> = sum_list (map (\<lambda>s. if P x \<and> f x = s then 1 else 0) srcs)
                   + sum_list (map (\<lambda>s. length (filter (\<lambda>x. P x \<and> f x = s) xs)) srcs)"
    by (simp add: sum_list_addf)
  also have "sum_list (map (\<lambda>s. if P x \<and> f x = s then (1::nat) else 0) srcs) = (if P x then 1 else 0)"
  proof (cases "P x")
    case True
    have "f x \<in> set srcs" using Cons.prems by simp
    from one_source[OF assms(1) this] show ?thesis using True by simp
  next
    case False
    then show ?thesis by simp
  qed
  finally show ?case using Cons by simp
qed

lemma entries_count:
  "length (filter (\<lambda>p. result_key (snd p) = k) (ranked_entries (by_source_sorted cs)))
     = length (filter (\<lambda>c. result_key c = k) cs)"
proof -
  let ?srcs = "map fst (foldl group_step [] cs)"
  let ?P = "\<lambda>c. result_key c = k"
  have "map snd (ranked_entries (by_source_sorted cs))
      = concat (map (\<lambda>src. source_ranking cs src) ?srcs)"
    unfolding entries_list by (simp add: map_concat comp_def map_snd_enumerate)
  then have "length (filter (\<lambda>p. result_key (snd p) = k) (ranked_entries (by_source_sorted cs)))
      = length (filter ?P (concat (map (\<lambda>src. source_ranking cs src) ?srcs)))"
    by (metis (mono_tags, lifting) comp_def length_filter_map filter_cong)
  also have "\<dots> = sum_list (map (\<lambda>src. length (filter ?P (source_ranking cs src))) ?srcs)"
    by (simp add: filter_concat length_concat comp_def)
  also have "\<dots> = sum_list (map (\<lambda>src. length (filter (\<lambda>c. ?P c \<and> source c = src) cs)) ?srcs)"
    by (simp add: source_ranking_def filter_sort conj_commute)
  also have "\<dots> = length (filter ?P cs)"
    by (rule partition_count) (use group_sources[of cs] in auto)
  finally show ?thesis .
qed

lemma fused_score_bound:
  assumes "r \<in> set (fused cs)"
  shows "score r \<le> real (occurrences cs r) / 61 \<and> (\<exists>c\<in>set cs. result_key c = result_key r)"
proof -
  from fused_elements[OF assms] obtain c where c: "c \<in> set cs"
    and r: "r = c\<lparr>score := contributions (result_key c) (ranked_entries (by_source_sorted cs))\<rparr>"
    by blast
  have k: "result_key r = result_key c" using r by (simp add: result_key_def)
  have "score r = contributions (result_key r) (ranked_entries (by_source_sorted cs))"
    using r k by simp
  also have "\<dots> \<le> real (length (filter (\<lambda>p. result_key (snd p) = result_key r)
                      (ranked_entries (by_source_sorted cs)))) / 61"
    by (rule contributions_le) (use entries_rank in blast)
  also have "\<dots> = real (occurrences cs r) / 61"
    by (simp add: entries_count occurrences_def)
  finally show ?thesis using c k by auto
qed

section \<open>Hybrid search\<close>

subsection \<open>Score bounds and the final filter\<close>

lemma py_take_subset: "set (py_take n xs) \<subseteq> set xs"
  by (auto simp: py_take_def dest: in_set_takeD)

lemma occurrences_key: "result_key c = result_key r \<Longrightarrow> occurrences cs c = occurrences cs r"
  by (simp add: occurrences_def)

lemma search_Inr:
  assumes "search hs s q mode f limit ms = Inr rs"
  shows "\<exists>cs. candidates hs s q mode f limit ms = Inr cs
           \<and> rs = filter (\<lambda>r. ms \<le> score r)
                    (if mode = ''hybrid'' then fuse_results cs limit
                     else py_take limit (sort_by_score cs))"
  using assms by (auto simp: search_def and_then_def Let_def split: sum.splits)

text \<open>
  The keyword strategy raises \<open>NameError\<close> at every call, and with it the search in
  keyword mode, and in hybrid mode once the semantic strategy has returned.
\<close>

lemma keyword_search_raises: "keyword_search s query filters limit = Inl NameError"
  by (simp add: keyword_search_def select_messages_like_def Message_model_def
      TYPE_CHECKING_def and_then_def)

lemma hybrid_search_raises:
  assumes "semantic_search hs query filters limit min_score = Inr rs"
  shows "search hs s query ''hybrid'' filters limit min_score = Inl NameError"
  using assms
  by (simp add: search_def candidates_def keyword_search_raises and_then_def)

subsection \<open>The scores of the fusion\<close>

text \<open>
  A key that no source carries twice is carried by at most three candidates.
\<close>

lemma occurrences_once_per_source:
  assumes "once_per_source cs"
  shows "occurrences cs r \<le> 3"
proof -
  let ?F = "filter (\<lambda>c. result_key c = result_key r) cs"
  have d: "distinct (map (\<lambda>c. (source c, result_key c)) ?F)"
    using assms unfolding once_per_source_def by (simp add: distinct_map_filter)
  have e: "map (\<lambda>c. (source c, result_key c)) ?F = map (\<lambda>s. (s, result_key r)) (map source ?F)"
    by (induction cs) auto
  have "distinct (map source ?F)"
    using d unfolding e by (rule distinct_map[THEN iffD1, THEN conjunct1])
  then have "length (map source ?F) = card (set (map source ?F))"
    by (simp only: distinct_card)
  also have "\<dots> \<le> card (set [''semantic'', ''keyword'', ''graph''])"
    using assms unfolding once_per_source_def by (intro card_mono) auto
  also have "\<dots> \<le> 3"
    by (rule order_trans[OF card_length]) simp
  finally show ?thesis by (simp add: occurrences_def)
qed

text \<open>
  Claim C4, as the code has it.  Every score of the fused list is a sum of contributions
  of at most \<open>1/61\<close> each, one for every candidate that carries the key, also for the
  second and later candidates of one source: it is at most \<open>n / 61\<close> for a key that \<open>n\<close>
  candidates carry, and at most \<open>3/61\<close> when no source carries a key twice.
  Consequently the final filter of the hybrid mode keeps nothing of the fused list when
  \<open>min_score\<close> is above \<open>n / 61\<close> for every key.
\<close>

theorem fuse_results_score_bound:
  "(\<forall>r\<in>set (fuse_results cs limit).
       score r \<le> real (occurrences cs r) / 61
       \<and> (once_per_source cs \<longrightarrow> score r \<le> 3 / 61))
   \<and> ((\<forall>c\<in>set cs. real (occurrences cs c) / 61 < ms)
        \<longrightarrow> filter (\<lambda>r. ms \<le> score r) (fuse_results cs limit) = [])"
proof -
  have sub: "r \<in> set (fused cs)" if "r \<in> set (fuse_results cs limit)" for r
    using that unfolding fuse_results_def by (rule subsetD[OF py_take_subset])
  have a: "score r \<le> real (occurrences cs r) / 61" if "r \<in> set (fuse_results cs limit)" for r
    using fused_score_bound[OF sub[OF that]] by (rule conjunct1)
  have b: "score r \<le> 3 / 61" if "r \<in> set (fuse_results cs limit)" and "once_per_source cs" for r
  proof -
    have "real (occurrences cs r) \<le> 3"
      using occurrences_once_per_source[OF that(2), of r] by simp
    then have "real (occurrences cs r) / 61 \<le> 3 / 61"
      by (simp add: divide_right_mono)
    with a[OF that(1)] show ?thesis by simp
  qed
  have c: "score r < ms"
    if "r \<in> set (fuse_results cs limit)" and "\<forall>c\<in>set cs. real (occurrences cs c) / 61 < ms" for r
  proof -
    from fused_score_bound[OF sub[OF that(1)]] obtain c0 where c0: "c0 \<in> set cs"
      and k: "result_key c0 = result_key r" by blast
    have "real (occurrences cs r) / 61 < ms"
      using that(2) c0 occurrences_key[OF k, of cs] by auto
    with a[OF that(1)] show ?thesis by simp
  qed
  have d: "filter (\<lambda>r. ms \<le> score r) (fuse_results cs limit) = []"
    if "\<forall>c\<in>set cs. real (occurrences cs c) / 61 < ms"
    using c[OF _ that] by (simp add: filter_empty_conv not_le)
  show ?thesis using a b d by blast
qed

text \<open>The theorem at the example of the specification, with \<open>min_score = 0.5\<close>.\<close>

theorem fuse_results_score_bound_witness:
  "map item_id (fuse_results example_candidates 10) = [''m2'', ''m1'', ''m3'']
   \<and> map (\<lambda>r. occurrences example_candidates r) (fuse_results example_candidates 10) = [2, 1, 1]
   \<and> score (hd (fuse_results example_candidates 10)) \<le> 2 / 61
   \<and> score (hd (fuse_results example_candidates 10)) \<le> 3 / 61
   \<and> filter (\<lambda>r. 1 / 2 \<le> score r) (fuse_results example_candidates 10) = []"
proof -
  have m: "map item_id (fuse_results example_candidates 10) = [''m2'', ''m1'', ''m3'']"
    by code_simp
  have n: "map (\<lambda>r. occurrences example_candidates r) (fuse_results example_candidates 10) = [2, 1, 1]"
    by code_simp
  have h: "hd (fuse_results example_candidates 10) \<in> set (fuse_results example_candidates 10)"
    using m by (intro hd_in_set) auto
  have o2: "occurrences example_candidates (hd (fuse_results example_candidates 10)) = 2"
    using n by (cases "fuse_results example_candidates 10") auto
  have o: "once_per_source example_candidates"
    by code_simp
  have b: "\<forall>c\<in>set example_candidates. real (occurrences example_candidates c) / 61 < 1 / 2"
    by code_simp
  show ?thesis
    using m n h o o2 b fuse_results_score_bound [of example_candidates 10 "1 / 2"] by auto
qed

text \<open>
  Claim C4 as stated fails at the hub store, with a vector client that finds nothing.
  The graph strategy lists the entity \<open>a\<close> four times, once for each seed; it is the
  nearest to every seed, so the four candidates take the ranks 1 to 4 of the one graph
  source, and the fusion gives \<open>a\<close> the score \<open>1/61 + 1/62 + 1/63 + 1/64\<close>, above
  \<open>3/61\<close>.  And the hybrid search does not return the empty list for
  \<open>min_score = 0.5\<close>: the keyword strategy raises \<open>NameError\<close>.
\<close>

theorem hybrid_score_above_three_sixty_firsts:
  "semantic_search hub_search ''q'' [] 10 (1 / 2) = Inr []
   \<and> keyword_search hub_store ''q'' [] 10 = Inl NameError
   \<and> search hub_search hub_store ''q'' ''hybrid'' [] 10 (1 / 2) = Inl NameError
   \<and> search hub_search hub_store ''q'' ''hybrid'' [] 10 (1 / 2) \<noteq> Inr []
   \<and> map item_id (projr (graph_search hub_search hub_store ''q'' [] 10))
       = [''a'', ''c'', ''d'', ''e'', ''a'', ''b'', ''d'', ''e'', ''a'', ''b'', ''c'', ''e'',
          ''a'', ''b'', ''c'', ''d'']
   \<and> map item_id (fuse_results (projr (graph_search hub_search hub_store ''q'' [] 10)) 1)
       = [''a'']
   \<and> map score (fuse_results (projr (graph_search hub_search hub_store ''q'' [] 10)) 1)
       = [488125 / 7624512]
   \<and> (3::real) / 61 < 488125 / 7624512"
  by code_simp

text \<open>
  Claim C3.  Whatever the mode, \<open>search\<close> returns no result whose score is below
  \<open>min_score\<close>: the result is the ranked list, fused in hybrid mode and sorted by the
  native score otherwise, with the entries below \<open>min_score\<close> dropped.
\<close>

theorem search_min_score:
  assumes "search hs s q mode f limit ms = Inr rs"
  shows "(\<forall>r\<in>set rs. ms \<le> score r)
     \<and> (\<exists>cs. candidates hs s q mode f limit ms = Inr cs
          \<and> rs = filter (\<lambda>r. ms \<le> score r)
                   (if mode = ''hybrid'' then fuse_results cs limit
                    else py_take limit (sort_by_score cs)))"
proof -
  from search_Inr[OF assms] obtain cs where cs: "candidates hs s q mode f limit ms = Inr cs"
    and rs: "rs = filter (\<lambda>r. ms \<le> score r)
                    (if mode = ''hybrid'' then fuse_results cs limit
                     else py_take limit (sort_by_score cs))"
    by blast
  have "\<forall>r\<in>set rs. ms \<le> score r" by (subst rs) simp
  then show ?thesis using cs rs by blast
qed

text \<open>The theorem at a semantic search with two hits, of scores 0.9 and 0.3.\<close>

theorem search_min_score_witness:
  "search two_hits_search hub_store ''q'' ''semantic'' [] 10 (1 / 2)
     = Inr [\<lparr>item_id = ''1'', item_type = ''message'', content = ''first'',
             score = 9 / 10, source = ''semantic'',
             metadata = [(''conversation_id'', PNone), (''role'', PNone),
                         (''timestamp'', PNone)]\<rparr>]
   \<and> (1::real) / 2 \<le> score \<lparr>item_id = ''1'', item_type = ''message'', content = ''first'',
             score = 9 / 10, source = ''semantic'',
             metadata = [(''conversation_id'', PNone), (''role'', PNone),
                         (''timestamp'', PNone)]\<rparr>"
proof -
  have e: "search two_hits_search hub_store ''q'' ''semantic'' [] 10 (1 / 2)
     = Inr [\<lparr>item_id = ''1'', item_type = ''message'', content = ''first'',
             score = 9 / 10, source = ''semantic'',
             metadata = [(''conversation_id'', PNone), (''role'', PNone),
                         (''timestamp'', PNone)]\<rparr>]"
    by code_simp
  from search_min_score[OF e] e show ?thesis by simp
qed

subsection \<open>A failing vector client\<close>

lemma seed_results_qdrant:
  "seed_results (hs\<lparr>qdrant := c\<rparr>) f limit seeds = seed_results hs f limit seeds"
  by (induction seeds) (auto simp: and_then_def split: sum.splits)

lemma graph_search_qdrant:
  "graph_search (hs\<lparr>qdrant := c\<rparr>) s q f limit = graph_search hs s q f limit"
  by (simp add: graph_search_def seed_results_qdrant)

lemma semantic_search_no_hits:
  "embedding_model hs q = Inr v \<Longrightarrow>
     semantic_search (hs\<lparr>qdrant := no_hits\<rparr>) q f limit ms = Inr []"
  by (simp add: semantic_search_def no_hits_def py_take_def)

text \<open>
  Claim C9, as the code has it.  When the embedding model returns a vector and the
  vector client raises, the semantic strategy returns the empty list, and the search as
  a whole gives what it gives with a vector client that finds nothing: the failure does
  not fail the call, and the results of the other strategies are returned.
\<close>

theorem semantic_search_client_failure:
  assumes "embedding_model hs q = Inr v" and "qdrant hs v (limit * 2) ms = Inl err"
  shows "semantic_search hs q f limit ms = Inr []
       \<and> search hs s q mode f limit ms = search (hs\<lparr>qdrant := no_hits\<rparr>) s q mode f limit ms"
proof -
  have a: "semantic_search hs q f limit ms = Inr []"
    using assms by (simp add: semantic_search_def)
  have "candidates hs s q mode f limit ms = candidates (hs\<lparr>qdrant := no_hits\<rparr>) s q mode f limit ms"
    unfolding candidates_def a semantic_search_no_hits[OF assms(1)] graph_search_qdrant ..
  then show ?thesis using a by (simp add: search_def)
qed

text \<open>The theorem at a vector client that always raises.\<close>

theorem semantic_search_client_failure_witness:
  "semantic_search failing_client_search ''q'' [] 10 (1 / 2) = Inr []
   \<and> search failing_client_search hub_store ''q'' ''semantic'' [] 10 (1 / 2) = Inr []
   \<and> search failing_client_search hub_store ''q'' ''graph'' [] 10 (1 / 2)
       = search (failing_client_search\<lparr>qdrant := no_hits\<rparr>) hub_store ''q'' ''graph'' [] 10 (1 / 2)"
proof -
  have e: "embedding_model failing_client_search ''q'' = Inr [1]"
    by (simp add: failing_client_search_def unit_embedding_def)
  have c: "qdrant failing_client_search [1] (10 * 2) (1 / 2) = Inl VectorClientError"
    by (simp add: failing_client_search_def failing_client_def)
  have n: "search (failing_client_search\<lparr>qdrant := no_hits\<rparr>) hub_store ''q'' ''semantic'' [] 10 (1 / 2) = Inr []"
    by code_simp
  show ?thesis
    using n semantic_search_client_failure [OF e c, of "[]" hub_store "''semantic''"]
      semantic_search_client_failure [OF e c, of "[]" hub_store "''graph''"]
    by simp
qed

text \<open>
  Claim C9 as stated fails for the embedding call, which stands outside the \<open>try\<close>
  block: when the embedding model raises, the semantic strategy raises, and so does the
  search in semantic and in hybrid mode.
\<close>

theorem embedding_failure_propagates:
  "semantic_search failing_embedding_search ''q'' [] 10 (1 / 2) = Inl EmbeddingError
   \<and> search failing_embedding_search hub_store ''q'' ''semantic'' [] 10 (1 / 2) = Inl EmbeddingError
   \<and> search failing_embedding_search hub_store ''q'' ''hybrid'' [] 10 (1 / 2) = Inl EmbeddingError"
  by code_simp

text \<open>
  In general: an exception of the embedding model leaves the semantic strategy, and the
  search in semantic and in hybrid mode, whatever the vector client does.
\<close>

lemma embedding_failure_raises:
  assumes "embedding_model hs query = Inl err"
  shows "semantic_search hs query filters limit min_score = Inl err"
    and "mode = ''hybrid'' \<or> mode = ''semantic'' \<Longrightarrow>
           search hs s query mode filters limit min_score = Inl err"
proof -
  show a: "semantic_search hs query filters limit min_score = Inl err"
    using assms by (simp add: semantic_search_def)
  assume "mode = ''hybrid'' \<or> mode = ''semantic''"
  then show "search hs s query mode filters limit min_score = Inl err"
    using a by (auto simp: search_def candidates_def and_then_def)
qed
section \<open>Breadth-first search\<close>

subsection \<open>Walks and distances\<close>

lemma walk_0_iff: "walk adj s 0 v \<longleftrightarrow> v = s"
  by (auto intro: walk.intros elim: walk.cases)

lemma walk_Suc_iff: "walk adj s (Suc k) v \<longleftrightarrow> (\<exists>u. walk adj s k u \<and> v \<in> set (adj u))"
  by (auto intro: walk.intros elim: walk.cases)

lemma distance_0: "distance_is adj s 0 v \<longleftrightarrow> v = s"
  by (simp add: distance_is_def walk_0_iff)

lemma reach_within_0: "reach_within adj s 0 = {s}"
  by (auto simp: reach_within_def walk_0_iff)

lemma distance_unique:
  "distance_is adj s k v \<Longrightarrow> distance_is adj s k' v \<Longrightarrow> k = k'"
  unfolding distance_is_def by (meson linorder_neqE_nat)


lemma walk_has_distance: "walk adj s j v \<Longrightarrow> \<exists>k\<le>j. distance_is adj s k v"
proof (induction j rule: less_induct)
  case (less j)
  show ?case
  proof (cases "\<exists>i<j. walk adj s i v")
    case True
    then obtain i where "i < j" "walk adj s i v" by blast
    with less.IH[of i] show ?thesis by (meson le_trans less_imp_le)
  next
    case False
    then have "distance_is adj s j v" using less.prems by (simp add: distance_is_def)
    then show ?thesis by blast
  qed
qed

lemma distance_Suc_iff:
  "distance_is adj s (Suc k) v \<longleftrightarrow> v \<in> reach_within adj s (Suc k) \<and> v \<notin> reach_within adj s k"
proof
  assume d: "distance_is adj s (Suc k) v"
  then have "walk adj s (Suc k) v" "\<forall>j\<le>k. \<not> walk adj s j v"
    by (auto simp: distance_is_def less_Suc_eq_le)
  then show "v \<in> reach_within adj s (Suc k) \<and> v \<notin> reach_within adj s k"
    by (auto simp: reach_within_def)
next
  assume a: "v \<in> reach_within adj s (Suc k) \<and> v \<notin> reach_within adj s k"
  then have n: "\<forall>j\<le>k. \<not> walk adj s j v" by (auto simp: reach_within_def)
  from a obtain j where "j \<le> Suc k" "walk adj s j v" by (auto simp: reach_within_def)
  then have "walk adj s (Suc k) v" using n by (cases "j = Suc k") auto
  then show "distance_is adj s (Suc k) v"
    using n by (auto simp: distance_is_def less_Suc_eq_le)
qed

lemma reach_within_Suc:
  "reach_within adj s (Suc k)
     = reach_within adj s k \<union> {v. \<exists>u. distance_is adj s k u \<and> v \<in> set (adj u)}"
proof (intro equalityI subsetI)
  fix v assume "v \<in> reach_within adj s (Suc k)"
  then obtain j where j: "j \<le> Suc k" "walk adj s j v" by (auto simp: reach_within_def)
  show "v \<in> reach_within adj s k \<union> {v. \<exists>u. distance_is adj s k u \<and> v \<in> set (adj u)}"
  proof (cases "j \<le> k")
    case True
    then show ?thesis using j by (auto simp: reach_within_def)
  next
    case False
    then have "j = Suc k" using j by simp
    then obtain u where u: "walk adj s k u" "v \<in> set (adj u)"
      using j by (auto simp: walk_Suc_iff)
    from walk_has_distance[OF u(1)] obtain i where i: "i \<le> k" "distance_is adj s i u" by blast
    show ?thesis
    proof (cases "i = k")
      case True
      then show ?thesis using i u by blast
    next
      case False
      then have "Suc i \<le> k" using i by simp
      moreover have "walk adj s (Suc i) v"
        using i u by (auto simp: distance_is_def walk_Suc_iff)
      ultimately show ?thesis by (auto simp: reach_within_def)
    qed
  qed
next
  fix v assume "v \<in> reach_within adj s k \<union> {v. \<exists>u. distance_is adj s k u \<and> v \<in> set (adj u)}"
  then show "v \<in> reach_within adj s (Suc k)"
  proof
    assume "v \<in> reach_within adj s k"
    then show ?thesis by (auto simp: reach_within_def intro: le_SucI)
  next
    assume "v \<in> {v. \<exists>u. distance_is adj s k u \<and> v \<in> set (adj u)}"
    then have "walk adj s (Suc k) v" by (auto simp: distance_is_def walk_Suc_iff)
    then show ?thesis unfolding reach_within_def by blast
  qed
qed

lemma distance_in_reach_within: "distance_is adj s k v \<Longrightarrow> v \<in> reach_within adj s k"
  by (auto simp: distance_is_def reach_within_def)

lemma distance_pred:
  assumes "distance_is adj s (Suc k) v"
  shows "\<exists>u. distance_is adj s k u \<and> v \<in> set (adj u)"
proof -
  from assms have "v \<in> reach_within adj s (Suc k)" "v \<notin> reach_within adj s k"
    by (auto simp: distance_Suc_iff)
  then show ?thesis by (auto simp: reach_within_Suc)
qed

lemma no_level_no_further:
  "{v. distance_is adj s k v} = {} \<Longrightarrow> k \<le> d \<Longrightarrow> {v. distance_is adj s d v} = {}"
proof (induction d)
  case 0
  then show ?case by simp
next
  case (Suc d)
  show ?case
  proof (cases "k = Suc d")
    case True
    then show ?thesis using Suc.prems by simp
  next
    case False
    then have "{v. distance_is adj s d v} = {}" using Suc by simp
    then show ?thesis using distance_pred[of adj s d] by blast
  qed
qed

subsection \<open>One level of the search\<close>

lemma visit_new_fold:
  "\<exists>new. foldl visit_new (nl, seen) ws = (nl @ new, seen @ new)
     \<and> set new = set ws - set seen \<and> (distinct seen \<longrightarrow> distinct (seen @ new))"
proof (induction ws arbitrary: nl seen)
  case Nil
  show ?case by simp
next
  case (Cons w ws)
  show ?case
  proof (cases "w \<in> set seen")
    case True
    then have "foldl visit_new (nl, seen) (w # ws) = foldl visit_new (nl, seen) ws"
      by (simp add: visit_new_def)
    then show ?thesis using Cons.IH[of nl seen] True by auto
  next
    case False
    then have "foldl visit_new (nl, seen) (w # ws) = foldl visit_new (nl @ [w], seen @ [w]) ws"
      by (simp add: visit_new_def)
    moreover from Cons.IH[of "nl @ [w]" "seen @ [w]"] obtain new where
      "foldl visit_new (nl @ [w], seen @ [w]) ws = ((nl @ [w]) @ new, (seen @ [w]) @ new)"
      "set new = set ws - set (seen @ [w])"
      "distinct (seen @ [w]) \<longrightarrow> distinct ((seen @ [w]) @ new)"
      by blast
    ultimately show ?thesis using False
      by (intro exI[of _ "w # new"]) auto
  qed
qed

lemma expand_level_fold:
  "\<exists>new. foldl (\<lambda>st v. foldl visit_new st (adj v)) (nl, seen) vs = (nl @ new, seen @ new)
     \<and> set new = (\<Union>v\<in>set vs. set (adj v)) - set seen
     \<and> (distinct seen \<longrightarrow> distinct (seen @ new))"
proof (induction vs arbitrary: nl seen)
  case Nil
  show ?case by simp
next
  case (Cons v vs)
  from visit_new_fold[of nl seen "adj v"] obtain new1 where 1:
    "foldl visit_new (nl, seen) (adj v) = (nl @ new1, seen @ new1)"
    "set new1 = set (adj v) - set seen" "distinct seen \<longrightarrow> distinct (seen @ new1)"
    by blast
  from Cons.IH[of "nl @ new1" "seen @ new1"] obtain new2 where 2:
    "foldl (\<lambda>st v. foldl visit_new st (adj v)) (nl @ new1, seen @ new1) vs
       = ((nl @ new1) @ new2, (seen @ new1) @ new2)"
    "set new2 = (\<Union>v\<in>set vs. set (adj v)) - set (seen @ new1)"
    "distinct (seen @ new1) \<longrightarrow> distinct ((seen @ new1) @ new2)"
    by blast
  show ?case using 1 2 by (intro exI[of _ "new1 @ new2"]) auto
qed

lemma expand_level_sets:
  assumes "expand_level adj thislevel seen = (nextlevel, seen')"
  shows "seen' = seen @ nextlevel"
    and "set nextlevel = (\<Union>v\<in>set thislevel. set (adj v)) - set seen"
    and "distinct seen \<Longrightarrow> distinct seen'"
  using expand_level_fold[of adj "[]" seen thislevel] assms
  by (auto simp: expand_level_def)

lemma bfs_inv_start: "bfs_inv adj s 0 [s] [s]"
  by (auto simp: bfs_inv_def distance_0 reach_within_0)

lemma bfs_inv_step:
  assumes "bfs_inv adj s k thislevel seen"
    and "expand_level adj thislevel seen = (nextlevel, seen')"
  shows "bfs_inv adj s (Suc k) nextlevel seen'"
proof -
  from assms(1) have cur: "set thislevel = {v. distance_is adj s k v}"
    and seen: "set seen = reach_within adj s k" and d: "distinct seen"
    by (auto simp: bfs_inv_def)
  note e = expand_level_sets[OF assms(2)]
  have nl: "set nextlevel = {v. \<exists>u. distance_is adj s k u \<and> v \<in> set (adj u)} - reach_within adj s k"
    using e(2) cur seen by auto
  have s': "set seen' = reach_within adj s (Suc k)"
    unfolding e(1) reach_within_Suc using nl seen by auto
  have "set nextlevel = {v. distance_is adj s (Suc k) v}"
    unfolding nl by (auto simp: distance_Suc_iff reach_within_Suc)
  then show ?thesis using s' e(3)[OF d] by (simp add: bfs_inv_def)
qed

subsection \<open>\<open>get_neighbors\<close>\<close>







text \<open>Without a type filter, the neighbours followed are the targets of the outgoing edges.\<close>

lemma allowed_neighbors_unfiltered:
  "set (allowed_neighbors g None u) = {v. \<exists>key d. (u, v, key, d) \<in> set (edges g)}"
  by (force simp: allowed_neighbors_def type_allowed_def neighbors_def successors_def uniq_def
      out_targets_def)



subsection \<open>\<open>find_related_entities\<close>\<close>





lemma undirected_neighbors_iff:
  "v \<in> set (undirected_neighbors g u)
     \<longleftrightarrow> (\<exists>key d. (u, v, key, d) \<in> set (edges g) \<or> (v, u, key, d) \<in> set (edges g))"
  by (force simp: undirected_neighbors_def successors_def predecessors_def uniq_def
      out_targets_def)




text \<open>
  The method returns a list whenever no node of the graph has a confidence of \<open>None\<close>
  (negating \<open>None\<close> in the sort key is the only way it raises).
\<close>

lemma find_related_entities_returns:
  assumes "\<forall>p\<in>set (nodes (graph k)). \<forall>a. snd p = Some a \<longrightarrow> n_confidence a \<noteq> None"
  shows "\<exists>rs. find_related_entities k e et md = Inr rs"
proof -
  have nn: "rel_confidence (related_entry (graph k) v d) \<noteq> None" for v d
  proof (cases "map_of (nodes (graph k)) v")
    case None
    then show ?thesis by (simp add: related_entry_def node_attr_def)
  next
    case (Some a)
    then have "(v, a) \<in> set (nodes (graph k))" by (rule map_of_SomeD)
    then show ?thesis using assms Some
      by (cases a) (auto simp: related_entry_def node_attr_def)
  qed
  show ?thesis
    by (auto simp: find_related_entities_def Let_def sort_related_def list_ex_iff nn)
qed


section \<open>Paths\<close>

subsection \<open>The breadth-first search with paths\<close>

text \<open>
  The search of \<open>shortest_path\<close> visits the nodes as the plain breadth-first search
  does, and the path kept with a node of level \<open>k\<close> has \<open>k + 1\<close> nodes.  So a path it
  returns has one node more than the distance of the target.
\<close>

lemma visit_path_fold:
  "\<exists>new. foldl (visit_path pv) (nl, seen) ws = (nl @ new, seen @ map fst new)
     \<and> foldl visit_new (map fst nl, seen) ws = (map fst nl @ map fst new, seen @ map fst new)
     \<and> (\<forall>p\<in>set new. length (snd p) = Suc (length pv))"
proof (induction ws arbitrary: nl seen)
  case Nil
  show ?case by (rule exI[of _ "[]"]) simp
next
  case (Cons w ws)
  show ?case
  proof (cases "w \<in> set seen")
    case True
    then have "foldl (visit_path pv) (nl, seen) (w # ws) = foldl (visit_path pv) (nl, seen) ws"
      and "foldl visit_new (map fst nl, seen) (w # ws) = foldl visit_new (map fst nl, seen) ws"
      by (simp_all add: visit_path_def visit_new_def)
    with Cons.IH[of nl seen] show ?thesis by simp
  next
    case False
    from Cons.IH[of "nl @ [(w, pv @ [w])]" "seen @ [w]"] obtain new where
      a: "foldl (visit_path pv) (nl @ [(w, pv @ [w])], seen @ [w]) ws
            = ((nl @ [(w, pv @ [w])]) @ new, (seen @ [w]) @ map fst new)"
      and b: "foldl visit_new (map fst (nl @ [(w, pv @ [w])]), seen @ [w]) ws
            = (map fst (nl @ [(w, pv @ [w])]) @ map fst new, (seen @ [w]) @ map fst new)"
      and c: "\<forall>p\<in>set new. length (snd p) = Suc (length pv)"
      by blast
    have s1: "foldl (visit_path pv) (nl, seen) (w # ws)
                = foldl (visit_path pv) (nl @ [(w, pv @ [w])], seen @ [w]) ws"
      and s2: "foldl visit_new (map fst nl, seen) (w # ws)
                = foldl visit_new (map fst (nl @ [(w, pv @ [w])]), seen @ [w]) ws"
      using False by (simp_all add: visit_path_def visit_new_def)
    show ?thesis
      unfolding s1 s2 a b
      by (rule exI[of _ "(w, pv @ [w]) # new"]) (use c in simp)
  qed
qed

lemma expand_paths_fold:
  assumes "\<forall>p\<in>set fr. length (snd p) = Suc k"
  shows "\<exists>new. foldl (\<lambda>st (v, pv). foldl (visit_path pv) st (adj v)) (nl, seen) fr
                 = (nl @ new, seen @ map fst new)
     \<and> foldl (\<lambda>st v. foldl visit_new st (adj v)) (map fst nl, seen) (map fst fr)
                 = (map fst nl @ map fst new, seen @ map fst new)
     \<and> (\<forall>p\<in>set new. length (snd p) = Suc (Suc k))"
  using assms
proof (induction fr arbitrary: nl seen)
  case Nil
  show ?case by (rule exI[of _ "[]"]) simp
next
  case (Cons x fr)
  obtain v pv where x: "x = (v, pv)" by (cases x)
  have len: "length pv = Suc k" using Cons.prems x by simp
  from visit_path_fold[of pv nl seen "adj v"] obtain new1 where
    a1: "foldl (visit_path pv) (nl, seen) (adj v) = (nl @ new1, seen @ map fst new1)"
    and b1: "foldl visit_new (map fst nl, seen) (adj v)
               = (map fst nl @ map fst new1, seen @ map fst new1)"
    and c1: "\<forall>p\<in>set new1. length (snd p) = Suc (length pv)"
    by blast
  have rest: "\<forall>p\<in>set fr. length (snd p) = Suc k" using Cons.prems by simp
  from Cons.IH[OF rest, of "nl @ new1" "seen @ map fst new1"] obtain new2 where
    a2: "foldl (\<lambda>st (v, pv). foldl (visit_path pv) st (adj v)) (nl @ new1, seen @ map fst new1) fr
           = ((nl @ new1) @ new2, (seen @ map fst new1) @ map fst new2)"
    and b2: "foldl (\<lambda>st v. foldl visit_new st (adj v)) (map fst (nl @ new1), seen @ map fst new1)
               (map fst fr)
           = (map fst (nl @ new1) @ map fst new2, (seen @ map fst new1) @ map fst new2)"
    and c2: "\<forall>p\<in>set new2. length (snd p) = Suc (Suc k)"
    by blast
  show ?case
    by (rule exI[of _ "new1 @ new2"])
      (use x a1 b1 c1 a2 b2 c2 len in \<open>auto\<close>)
qed

lemma expand_paths_level:
  assumes "expand_paths adj fr seen = (nl, seen')"
    and "\<forall>p\<in>set fr. length (snd p) = Suc k"
  shows "expand_level adj (map fst fr) seen = (map fst nl, seen')"
    and "\<forall>p\<in>set nl. length (snd p) = Suc (Suc k)"
  using expand_paths_fold[OF assms(2), of adj "[]" seen] assms(1)
  by (auto simp: expand_paths_def expand_level_def)



text \<open>
  Every path of \<open>all_simple_paths\<close>, and so of \<open>find_paths\<close>, is a walk along the edges'
  direction from the source to the target.
\<close>

lemma out_targets_successors: "set (out_targets g u) = set (successors g u)"
  by (simp add: successors_def uniq_def)

lemma simple_paths_walk:
  assumes "r \<in> set (simple_paths_from g t n path)"
    and "path \<noteq> []"
    and "walk (successors g) s (length path - 1) (last path)"
  shows "walk (successors g) s (length r - 1) t"
  using assms
proof (induction n arbitrary: path)
  case 0
  then show ?case by simp
next
  case (Suc n)
  from Suc.prems(1) obtain child where c: "child \<in> set (out_targets g (last path))"
    and r: "r \<in> set (if child \<in> set path then []
                     else if child = t then [path @ [child]]
                     else simple_paths_from g t n (path @ [child]))"
    by auto
  from c have s: "child \<in> set (successors g (last path))"
    by (simp add: out_targets_successors)
  have w: "walk (successors g) s (Suc (length path - 1)) child"
    using Suc.prems(3) s by (rule walk_Suc)
  have n: "Suc (length path - 1) = length (path @ [child]) - 1"
    using Suc.prems(2) by (cases path) simp_all
  show ?case
  proof (cases "child \<in> set path")
    case True
    with r show ?thesis by simp
  next
    case False
    show ?thesis
    proof (cases "child = t")
      case True
      with r False have "r = path @ [t]" by simp
      with w n True show ?thesis by simp
    next
      case neq: False
      with r False have r': "r \<in> set (simple_paths_from g t n (path @ [child]))" by simp
      have "walk (successors g) s (length (path @ [child]) - 1) (last (path @ [child]))"
        using w n by simp
      from Suc.IH[OF r' _ this] show ?thesis by simp
    qed
  qed
qed

lemma find_paths_walk:
  assumes "p \<in> set (find_paths k s t max_depth cutoff)"
  shows "p \<noteq> [] \<and> walk (successors (graph k)) s (length p - 1) t"
proof -
  have "set (find_paths k s t max_depth cutoff) \<subseteq> set (all_simple_paths (graph k) s t max_depth)"
    by (auto simp: find_paths_def Let_def split: option.splits if_splits
        dest: subsetD[OF py_take_subset])
  with assms have a: "p \<in> set (all_simple_paths (graph k) s t max_depth)" by blast
  show ?thesis
  proof (cases "s = t")
    case True
    with a have "p = [s]" by (simp add: all_simple_paths_def split: if_splits)
    with True show ?thesis by (simp add: walk_0)
  next
    case False
    with a have r: "p \<in> set (simple_paths_from (graph k) t (nat max_depth) [s])"
      by (simp add: all_simple_paths_def split: if_splits)
    have "walk (successors (graph k)) s (length [s] - 1) (last [s])"
      by (simp add: walk_0)
    from simple_paths_walk[OF r _ this] have w: "walk (successors (graph k)) s (length p - 1) t"
      by simp
    have "p \<noteq> []"
    proof
      assume "p = []"
      with w have "t = s" by (simp add: walk_0_iff)
      with False show False by simp
    qed
    with w show ?thesis by simp
  qed
qed



subsection \<open>The search returns when there is a path\<close>

text \<open>
  In a graph whose edges join nodes, as every graph made by \<open>add_node\<close> and \<open>add_edge\<close>
  is, a target at distance \<open>d\<close> has \<open>d < number_of_nodes\<close>, so the level counter of
  \<open>shortest_path\<close> does not run out before the target is found: whenever \<open>find_paths\<close>
  returns a path, \<open>find_shortest_path\<close> returns one.
\<close>

lemma successors_edge:
  "v \<in> set (successors g u) \<Longrightarrow> \<exists>k d. (u, v, k, d) \<in> set (edges g)"
  by (auto simp: successors_def uniq_def out_targets_def)

lemma walk_nodes:
  assumes "graph_closed g" and "has_node g s" and "walk (successors g) s j v"
  shows "has_node g v"
  using assms(3)
proof (induction rule: walk.induct)
  case walk_0
  show ?case by (rule assms(2))
next
  case (walk_Suc k u v)
  from successors_edge[OF walk_Suc.hyps(2)] obtain key d where "(u, v, key, d) \<in> set (edges g)"
    by blast
  with assms(1) show ?case unfolding graph_closed_def by force
qed

lemma distance_lt_nodes:
  assumes "graph_closed g" and "has_node g s" and "distance_is (successors g) s d t"
  shows "d < number_of_nodes g"
proof -
  let ?adj = "successors g"
  have ex: "\<exists>v. distance_is ?adj s j v" if "j \<le> d" for j
  proof (rule ccontr)
    assume "\<not> (\<exists>v. distance_is ?adj s j v)"
    then have "{v. distance_is ?adj s j v} = {}" by simp
    from no_level_no_further[OF this that] assms(3) show False by blast
  qed
  then have "\<forall>j. \<exists>v. j \<le> d \<longrightarrow> distance_is ?adj s j v" by blast
  then obtain f where f: "\<forall>j. j \<le> d \<longrightarrow> distance_is ?adj s j (f j)"
    by (rule choice[THEN exE])
  have inj: "inj_on f {..d}"
  proof (rule inj_onI)
    fix i j assume a: "i \<in> {..d}" "j \<in> {..d}" and e: "f i = f j"
    from f a have di: "distance_is ?adj s i (f i)" and dj: "distance_is ?adj s j (f j)"
      by simp_all
    from di dj[folded e] show "i = j" by (rule distance_unique)
  qed
  have sub: "f ` {..d} \<subseteq> fst ` set (nodes g)"
  proof
    fix v assume "v \<in> f ` {..d}"
    then obtain j where j: "j \<le> d" "v = f j" by auto
    with f have "walk ?adj s j v" by (simp add: distance_is_def)
    from walk_nodes[OF assms(1,2) this] show "v \<in> fst ` set (nodes g)"
      by (simp add: has_node_def)
  qed
  have "Suc d = card (f ` {..d})" using inj by (simp add: card_image)
  also have "\<dots> \<le> card (fst ` set (nodes g))" using sub by (intro card_mono) simp_all
  also have "\<dots> \<le> card (set (nodes g))" by (intro card_image_le) simp
  also have "\<dots> \<le> length (nodes g)" by (rule card_length)
  finally show ?thesis by (simp add: number_of_nodes_def)
qed

lemma search_paths_complete:
  assumes "bfs_inv adj s k (map fst fr) seen"
    and "\<forall>p\<in>set fr. length (snd p) = Suc k"
    and "distance_is adj s d t" and "k \<le> d" and "d - k < n"
  shows "\<exists>q. search_paths adj t n fr seen = Some q"
  using assms
proof (induction n arbitrary: k fr seen)
  case 0
  then show ?case by simp
next
  case (Suc n)
  show ?case
  proof (cases "map_of fr t")
    case (Some p)
    then show ?thesis by simp
  next
    case None
    then have "t \<notin> set (map fst fr)" by (simp add: map_of_eq_None_iff)
    then have "\<not> distance_is adj s k t" using Suc.prems(1) by (simp add: bfs_inv_def)
    with Suc.prems(3,4) have lt: "k < d" by (cases "k = d") auto
    have ne: "fr \<noteq> []"
    proof
      assume "fr = []"
      with Suc.prems(1) have "{v. distance_is adj s k v} = {}" by (simp add: bfs_inv_def)
      from no_level_no_further[OF this Suc.prems(4)] Suc.prems(3) show False by blast
    qed
    obtain nl seen' where e: "expand_paths adj fr seen = (nl, seen')"
      by (cases "expand_paths adj fr seen")
    from expand_paths_level[OF e Suc.prems(2)]
    have l: "expand_level adj (map fst fr) seen = (map fst nl, seen')"
      and len: "\<forall>p\<in>set nl. length (snd p) = Suc (Suc k)"
      by blast+
    from bfs_inv_step[OF Suc.prems(1) l] have i: "bfs_inv adj s (Suc k) (map fst nl) seen'" .
    have "Suc k \<le> d" "d - Suc k < n" using lt Suc.prems(5) by simp_all
    from Suc.IH[OF i len Suc.prems(3) this] obtain q where
      "search_paths adj t n nl seen' = Some q" by blast
    with None ne e show ?thesis by simp
  qed
qed

lemma find_shortest_path_returns:
  assumes "graph_closed (graph k)" and "p \<in> set (find_paths k s t max_depth cutoff)"
  shows "\<exists>q. find_shortest_path k s t = Some q"
proof -
  from assms(2) have n: "has_node (graph k) s" "has_node (graph k) t"
    by (auto simp: find_paths_def split: if_splits)
  from find_paths_walk[OF assms(2)] have "walk (successors (graph k)) s (length p - 1) t"
    by simp
  from walk_has_distance[OF this] obtain d where d: "distance_is (successors (graph k)) s d t"
    by blast
  from distance_lt_nodes[OF assms(1) n(1) d] have f: "d - 0 < Suc (number_of_nodes (graph k))"
    by simp
  have i: "bfs_inv (successors (graph k)) s 0 (map fst [(s, [s])]) [s]"
    using bfs_inv_start[of "successors (graph k)" s] by simp
  have l: "\<forall>p\<in>set [(s, [s])]. length (snd p) = Suc 0" by simp
  from search_paths_complete[OF i l d _ f] show ?thesis
    using n by (simp add: find_shortest_path_def shortest_path_def)
qed

text \<open>The graphs that \<open>build_graph\<close> makes are of this kind, whatever the store holds.\<close>

lemma has_node_add_node: "has_node g n \<Longrightarrow> has_node (add_node g m a) n"
  by (simp add: has_node_def add_node_def dom_update)

lemma has_node_ensure_node: "has_node (ensure_node g m) n \<longleftrightarrow> n = m \<or> has_node g n"
  by (auto simp: has_node_def ensure_node_def)

lemma edges_ensure_node: "edges (ensure_node g m) = edges g"
  by (simp add: ensure_node_def)

lemma set_edge_subset: "set (set_edge es u v k a) \<subseteq> insert (u, v, k, a) (set es)"
  by (induction es u v k a rule: set_edge.induct) auto

lemma graph_closed_add_node: "graph_closed g \<Longrightarrow> graph_closed (add_node g n a)"
  unfolding graph_closed_def using has_node_add_node by (auto simp: add_node_def)

lemma graph_closed_add_edge: "graph_closed g \<Longrightarrow> graph_closed (add_edge g u v k a)"
proof -
  assume c: "graph_closed g"
  let ?g2 = "ensure_node (ensure_node g u) v"
  have n: "has_node ?g2 x" if "x = u \<or> x = v \<or> has_node g x" for x
    using that by (auto simp: has_node_ensure_node)
  have h: "has_node (?g2\<lparr>edges := es\<rparr>) x = has_node ?g2 x" for es x
    by (simp add: has_node_def)
  show ?thesis
    unfolding graph_closed_def add_edge_def Let_def
  proof
    fix e assume "e \<in> set (edges (?g2\<lparr>edges := set_edge (edges ?g2) u v k a\<rparr>))"
    then have "e \<in> insert (u, v, k, a) (set (edges g))"
      using set_edge_subset[of "edges g" u v k a] by (auto simp: edges_ensure_node)
    then show "has_node (?g2\<lparr>edges := set_edge (edges ?g2) u v k a\<rparr>) (fst e)
             \<and> has_node (?g2\<lparr>edges := set_edge (edges ?g2) u v k a\<rparr>) (fst (snd e))"
      unfolding h using c n by (auto simp: graph_closed_def)
  qed
qed

lemma graph_closed_entities: "graph_closed g \<Longrightarrow> graph_closed (foldl entity_node g es)"
  by (induction es arbitrary: g) (simp_all add: entity_node_def graph_closed_add_node)

lemma graph_closed_relationships: "graph_closed g \<Longrightarrow> graph_closed (foldl relationship_edge g rs)"
  by (induction rs arbitrary: g) (simp_all add: relationship_edge_def graph_closed_add_edge)

lemma build_graph_closed: "graph_closed (graph (fst (build_graph k0 s as_of now0 now1)))"
proof -
  have e: "graph_closed empty_graph" by (simp add: graph_closed_def empty_graph_def)
  show ?thesis
    by (auto simp: build_graph_def Let_def e graph_closed_entities graph_closed_relationships
        split: sum.splits)
qed
end
